theory Spec2Isabelle
  imports Main "HOL-Library.Multiset" "HOL-Library.Word"
begin

section \<open>Page tables of \<^verbatim>\<open>src/main.cpp\<close>\<close>

text \<open>
  The program simulates two page-replacement policies, \<^verbatim>\<open>fifo_table\<close> and
  \<^verbatim>\<open>lru_table\<close>. Each class is a record of its private fields, and each member
  function takes the object and returns its result paired with the updated object.

  A page is a C++ \<^verbatim>\<open>int\<close> that is only stored, compared for equality and
  returned; \<^verbatim>\<open>-1\<close> is the value \<^verbatim>\<open>load_page\<close> returns when it has
  replaced no page.

  The fields that the program does arithmetic on have their width. The fault counter
  \<^verbatim>\<open>int _page_fault_count\<close> is a 32-bit word that \<^verbatim>\<open>++\<close> increments with
  two's-complement wrap-around, and \<^verbatim>\<open>get_page_fault_count()\<close> reads it as a
  signed value (\<open>sint\<close>): one more than \<open>2147483647\<close> is \<open>-2147483648\<close>.
  The recency counters are \<^verbatim>\<open>size_t\<close>, 64-bit words that \<^verbatim>\<open>+= 1\<close>
  increments modulo \<open>2^64\<close> and that \<^verbatim>\<open><\<close> compares as unsigned values.
  The capacity is only compared with a container size and is the natural number it
  holds.
\<close>

type_synonym c_int = "32 word"

type_synonym size_t = "64 word"

type_synonym page = int

subsection \<open>\<^verbatim>\<open>class fifo_table\<close>\<close>

text \<open>
  \<^verbatim>\<open>std::deque<int> _pageQueue\<close> is the list of its elements from front to back.
  The field names carry the class name, since both classes have the same three fields.
\<close>

record fifo_table =
  fifo_pageQueue :: "page list"
  fifo_capacity :: nat
  fifo_page_fault_count :: c_int

text \<open>The constructor \<^verbatim>\<open>fifo_table(size_t capacity)\<close>.\<close>

definition fifo_new :: "nat \<Rightarrow> fifo_table" where
  "fifo_new c = \<lparr>fifo_pageQueue = [], fifo_capacity = c, fifo_page_fault_count = 0\<rparr>"

definition fifo_get_page_list :: "fifo_table \<Rightarrow> page list" where
  "fifo_get_page_list s = fifo_pageQueue s"

definition fifo_get_page_fault_count :: "fifo_table \<Rightarrow> int" where
  "fifo_get_page_fault_count s = sint (fifo_page_fault_count s)"

text \<open>
  \<^verbatim>\<open>load_page\<close>: \<^verbatim>\<open>std::find\<close> reaching \<^verbatim>\<open>end()\<close> is \<open>page \<notin> set q\<close>;
  \<^verbatim>\<open>push_back\<close> appends, \<^verbatim>\<open>front\<close> and \<^verbatim>\<open>pop_front\<close> are \<open>hd\<close> and
  \<open>tl\<close> of a queue that is not empty, the page having just been pushed.
\<close>

definition fifo_load_page :: "fifo_table \<Rightarrow> page \<Rightarrow> (bool \<times> page) \<times> fifo_table" where
  "fifo_load_page s page =
     (if page \<notin> set (fifo_pageQueue s) then
        (let n = fifo_page_fault_count s + 1;
             q = fifo_pageQueue s @ [page]
         in if length q > fifo_capacity s
            then ((True, hd q), s\<lparr>fifo_pageQueue := tl q, fifo_page_fault_count := n\<rparr>)
            else ((True, -1), s\<lparr>fifo_pageQueue := q, fifo_page_fault_count := n\<rparr>))
      else ((False, -1), s))"

text \<open>
  The driver loop of \<^verbatim>\<open>run_trial\<close>,
  \<^verbatim>\<open>for(int page : pageTestSet) page_table.load_page(page);\<close>
\<close>

fun fifo_run :: "fifo_table \<Rightarrow> page list \<Rightarrow> fifo_table" where
  "fifo_run s [] = s"
| "fifo_run s (page # pages) = fifo_run (snd (fifo_load_page s page)) pages"

subsection \<open>\<^verbatim>\<open>class lru_table\<close>\<close>

text \<open>
  \<^verbatim>\<open>std::unordered_map<int, size_t> _pageMap\<close> is the list of its entries in the
  order in which the container iterates over them. That order is not specified by the
  language; the model lists a new entry first, and lemma \<open>lru_load_perm\<close> shows that
  the result of a call is the same for every other order of the entries, as long as the
  counters are distinct. The entries have distinct keys.
\<close>

record lru_table =
  lru_pageMap :: "(page \<times> size_t) list"
  lru_capacity :: nat
  lru_page_fault_count :: c_int

definition lru_new :: "nat \<Rightarrow> lru_table" where
  "lru_new c = \<lparr>lru_pageMap = [], lru_capacity = c, lru_page_fault_count = 0\<rparr>"

definition lru_get_page_list :: "lru_table \<Rightarrow> page list" where
  "lru_get_page_list s = map fst (lru_pageMap s)"

definition lru_get_page_fault_count :: "lru_table \<Rightarrow> int" where
  "lru_get_page_fault_count s = sint (lru_page_fault_count s)"

text \<open>\<^verbatim>\<open>insert\<close> adds the entry only when the key is absent.\<close>

definition map_insert :: "(page \<times> size_t) list \<Rightarrow> page \<Rightarrow> size_t \<Rightarrow> (page \<times> size_t) list" where
  "map_insert m k v = (if map_of m k = None then (k, v) # m else m)"

text \<open>
  \<^verbatim>\<open>m[k] = v\<close>: \<^verbatim>\<open>operator[]\<close> adds a value-initialised entry when the key is
  absent, then the entry of the key is assigned.
\<close>

definition map_assign :: "(page \<times> size_t) list \<Rightarrow> page \<Rightarrow> size_t \<Rightarrow> (page \<times> size_t) list" where
  "map_assign m k v =
     map (\<lambda>kvp. if fst kvp = k then (fst kvp, v) else kvp) (map_insert m k 0)"

text \<open>\<^verbatim>\<open>for(auto& keyValuePair : _pageMap) keyValuePair.second += 1;\<close>\<close>

definition increment_all :: "(page \<times> size_t) list \<Rightarrow> (page \<times> size_t) list" where
  "increment_all m = map (\<lambda>kvp. (fst kvp, snd kvp + 1)) m"

text \<open>
  \<^verbatim>\<open>std::max_element(first, last, comp)\<close> with
  \<^verbatim>\<open>comp(max, kvp) = max.second < kvp.second\<close>: the candidate starts as the first
  element and is replaced by each later element that compares greater, so of several
  greatest elements the first one met is returned. On an empty range it returns
  \<^verbatim>\<open>last\<close>, which is \<open>None\<close> here.
\<close>

fun max_element_from :: "page \<times> size_t \<Rightarrow> (page \<times> size_t) list \<Rightarrow> page \<times> size_t" where
  "max_element_from largest [] = largest"
| "max_element_from largest (kvp # rest) =
     max_element_from (if snd largest < snd kvp then kvp else largest) rest"

fun max_element :: "(page \<times> size_t) list \<Rightarrow> (page \<times> size_t) option" where
  "max_element [] = None"
| "max_element (kvp # rest) = Some (max_element_from kvp rest)"

text \<open>
  The first half of \<^verbatim>\<open>load_page\<close> (lines 93 to 103): the entry of the page is
  added if absent, set to 0, and every counter of the table, the one of the page
  included, is incremented.
\<close>

definition lru_touch :: "(page \<times> size_t) list \<Rightarrow> page \<Rightarrow> (page \<times> size_t) list" where
  "lru_touch m page =
     increment_all
       (map_assign (if map_of m page = None then map_insert m page 0 else m) page 0)"

text \<open>
  \<^verbatim>\<open>load_page\<close>. \<^verbatim>\<open>erase(maxElement)\<close> removes the entry the iterator points
  to, which is the first entry equal to it. The search runs on a table of more than
  \<^verbatim>\<open>_capacity\<close> entries, so the range is never empty there; the branch \<open>None\<close>
  stands for the dereference of \<^verbatim>\<open>end()\<close> and is never taken.
\<close>

definition lru_load_page :: "lru_table \<Rightarrow> page \<Rightarrow> (bool \<times> page) \<times> lru_table" where
  "lru_load_page s page =
     (let absent = (map_of (lru_pageMap s) page = None);
          n = (if absent then lru_page_fault_count s + 1 else lru_page_fault_count s);
          m = lru_touch (lru_pageMap s) page
      in if length m > lru_capacity s
         then (case max_element m of
                 Some maxElement \<Rightarrow>
                   ((absent, fst maxElement),
                    s\<lparr>lru_pageMap := remove1 maxElement m, lru_page_fault_count := n\<rparr>)
               | None \<Rightarrow> ((absent, -1), s\<lparr>lru_pageMap := m, lru_page_fault_count := n\<rparr>))
         else ((absent, -1), s\<lparr>lru_pageMap := m, lru_page_fault_count := n\<rparr>))"

fun lru_run :: "lru_table \<Rightarrow> page list \<Rightarrow> lru_table" where
  "lru_run s [] = s"
| "lru_run s (page # pages) = lru_run (snd (lru_load_page s page)) pages"

text \<open>
  Two invariants of the table. The first holds after every call: the pages are
  distinct and there are no more entries than the capacity. The second holds while no
  counter has wrapped, and \<open>n\<close> is the number of calls made: the counters are
  distinct, and none is 0 or exceeds \<open>n\<close>.
\<close>

definition lru_inv :: "lru_table \<Rightarrow> bool" where
  "lru_inv s \<longleftrightarrow>
     distinct (map fst (lru_pageMap s)) \<and> length (lru_pageMap s) \<le> lru_capacity s"

definition lru_counters_inv :: "nat \<Rightarrow> (page \<times> size_t) list \<Rightarrow> bool" where
  "lru_counters_inv n m \<longleftrightarrow>
     distinct (map snd m) \<and>
     list_all (\<lambda>kvp. 0 < unat (snd kvp) \<and> unat (snd kvp) \<le> n) m"

text \<open>
  The rows of the table that \<^verbatim>\<open>run_trial\<close> prints for capacity 3: the result of
  each \<^verbatim>\<open>load_page\<close> call, in order.
\<close>

fun fifo_results :: "fifo_table \<Rightarrow> page list \<Rightarrow> (bool \<times> page) list" where
  "fifo_results s [] = []"
| "fifo_results s (page # pages) =
     fst (fifo_load_page s page) # fifo_results (snd (fifo_load_page s page)) pages"

fun lru_results :: "lru_table \<Rightarrow> page list \<Rightarrow> (bool \<times> page) list" where
  "lru_results s [] = []"
| "lru_results s (page # pages) =
     fst (lru_load_page s page) # lru_results (snd (lru_load_page s page)) pages"

subsection \<open>\<^verbatim>\<open>load_page\<close> iterator by iterator\<close>

text \<open>
  The definitions above use list functions where a call runs a loop:
  the scan of \<^verbatim>\<open>std::find\<close>, the range-based \<^verbatim>\<open>for\<close> over the table, and the
  scan of \<^verbatim>\<open>std::max_element\<close>. Here each loop advances an iterator, a position in
  the container, until it is equal to \<^verbatim>\<open>end()\<close>, as the library writes them
  (\<^verbatim>\<open>for (; first != last; ++first)\<close>). Such a loop is a recursion with no
  structural bound, so the result is an option and \<open>None\<close> is a loop that
  does not return. The member functions of the hash table (\<^verbatim>\<open>find\<close>,
  \<^verbatim>\<open>insert\<close>, \<^verbatim>\<open>operator[]\<close>, \<^verbatim>\<open>erase\<close>) are single steps.
\<close>

text \<open>
  \<^verbatim>\<open>std::find(first, last, val)\<close>:
  \<^verbatim>\<open>for (; first != last; ++first) if (*first == val) return first; return last;\<close>
\<close>

partial_function (option) find_loop :: "page list \<Rightarrow> page \<Rightarrow> nat \<Rightarrow> nat option" where
  "find_loop q val first =
     (if first \<noteq> length q
      then (if q ! first = val then Some first else find_loop q val (first + 1))
      else Some first)"

text \<open>
  \<^verbatim>\<open>for(auto& keyValuePair : _pageMap) keyValuePair.second += 1;\<close> is
  \<^verbatim>\<open>for (auto it = begin(); it != end(); ++it) it->second += 1;\<close>
\<close>

partial_function (option) increment_loop :: "(page \<times> size_t) list \<Rightarrow> nat \<Rightarrow> (page \<times> size_t) list option" where
  "increment_loop m it =
     (if it \<noteq> length m
      then increment_loop (m[it := (fst (m ! it), snd (m ! it) + 1)]) (it + 1)
      else Some m)"

text \<open>
  \<^verbatim>\<open>std::max_element(first, last, comp)\<close>:
  \<^verbatim>\<open>if (first == last) return last; largest = first; ++first;\<close>
  \<^verbatim>\<open>for (; first != last; ++first) if (comp(*largest, *first)) largest = first;\<close>
  \<^verbatim>\<open>return largest;\<close>
\<close>

partial_function (option) max_element_loop :: "(page \<times> size_t) list \<Rightarrow> nat \<Rightarrow> nat \<Rightarrow> nat option" where
  "max_element_loop m largest first =
     (if first \<noteq> length m
      then max_element_loop m (if snd (m ! largest) < snd (m ! first) then first else largest) (first + 1)
      else Some largest)"

definition max_element_it :: "(page \<times> size_t) list \<Rightarrow> nat option" where
  "max_element_it m = (if 0 = length m then Some (length m) else max_element_loop m 0 1)"

text \<open>\<^verbatim>\<open>erase(it)\<close> removes the entry at the position of the iterator.\<close>

definition erase_at :: "(page \<times> size_t) list \<Rightarrow> nat \<Rightarrow> (page \<times> size_t) list" where
  "erase_at m it = take it m @ drop (it + 1) m"

text \<open>
  \<^verbatim>\<open>load_page\<close> of both classes with each loop run in this way. In \<^verbatim>\<open>lru_table\<close> the
  iterator that the search returns is dereferenced; were it \<^verbatim>\<open>end()\<close>, the call
  would have no result, which is \<open>None\<close> as well.
\<close>

definition fifo_load_page_iter :: "fifo_table \<Rightarrow> page \<Rightarrow> ((bool \<times> page) \<times> fifo_table) option" where
  "fifo_load_page_iter s page =
     (case find_loop (fifo_pageQueue s) page 0 of
        None \<Rightarrow> None
      | Some it \<Rightarrow>
          Some (if it = length (fifo_pageQueue s) then
                  (let n = fifo_page_fault_count s + 1;
                       q = fifo_pageQueue s @ [page]
                   in if length q > fifo_capacity s
                      then ((True, hd q), s\<lparr>fifo_pageQueue := tl q, fifo_page_fault_count := n\<rparr>)
                      else ((True, -1), s\<lparr>fifo_pageQueue := q, fifo_page_fault_count := n\<rparr>))
                else ((False, -1), s)))"

definition lru_load_page_iter :: "lru_table \<Rightarrow> page \<Rightarrow> ((bool \<times> page) \<times> lru_table) option" where
  "lru_load_page_iter s page =
     (let absent = (map_of (lru_pageMap s) page = None);
          n = (if absent then lru_page_fault_count s + 1 else lru_page_fault_count s);
          m0 = map_assign (if absent then map_insert (lru_pageMap s) page 0 else lru_pageMap s) page 0
      in case increment_loop m0 0 of
           None \<Rightarrow> None
         | Some m \<Rightarrow>
             if length m > lru_capacity s
             then (case max_element_it m of
                     None \<Rightarrow> None
                   | Some it \<Rightarrow>
                       if it = length m then None
                       else Some ((absent, fst (m ! it)),
                                  s\<lparr>lru_pageMap := erase_at m it, lru_page_fault_count := n\<rparr>))
             else Some ((absent, -1), s\<lparr>lru_pageMap := m, lru_page_fault_count := n\<rparr>))"

text \<open>
  The same search with the other tie-break, the last of several greatest elements met,
  which is the rule the specification mentions. It is not in the source and serves only
  to state that the tie-break makes no difference.
\<close>

fun max_element_from_last :: "page \<times> size_t \<Rightarrow> (page \<times> size_t) list \<Rightarrow> page \<times> size_t" where
  "max_element_from_last largest [] = largest"
| "max_element_from_last largest (kvp # rest) =
     max_element_from_last (if snd largest \<le> snd kvp then kvp else largest) rest"

fun max_element_last :: "(page \<times> size_t) list \<Rightarrow> (page \<times> size_t) option" where
  "max_element_last [] = None"
| "max_element_last (kvp # rest) = Some (max_element_from_last kvp rest)"

section \<open>Properties\<close>

subsection \<open>Increments within the range of the field\<close>

lemma sint_succ:
  fixes x :: c_int
  assumes "sint x < 2147483647"
  shows "sint (x + 1) = sint x + 1"
proof -
  have "- (2 ^ 31) \<le> sint x" using sint_ge [of x] by simp
  with assms have "signed_take_bit 31 (sint x + 1) = sint x + 1"
    by (intro signed_take_bit_int_eq_self) simp_all
  then show ?thesis by (simp add: sint_word_ariths)
qed

lemma unat_succ:
  fixes c :: size_t
  assumes "unat c < 2 ^ 64 - 1"
  shows "unat (c + 1) = unat c + 1"
proof -
  from assms have "unat c + unat (1 :: size_t) < 2 ^ LENGTH(64)" by simp
  then have "unat (c + 1) = unat c + unat (1 :: size_t)" by (simp only: unat_add_lem)
  then show ?thesis by simp
qed

subsection \<open>\<^verbatim>\<open>fifo_table\<close>\<close>

lemma fifo_load_capacity [simp]: "fifo_capacity (snd (fifo_load_page s page)) = fifo_capacity s"
  by (simp add: fifo_load_page_def Let_def)

lemma fifo_run_capacity [simp]: "fifo_capacity (fifo_run s pages) = fifo_capacity s"
  by (induction pages arbitrary: s) simp_all

lemma fifo_load_length:
  "length (fifo_pageQueue s) \<le> fifo_capacity s \<Longrightarrow>
   length (fifo_pageQueue (snd (fifo_load_page s page))) \<le> fifo_capacity s"
  by (simp add: fifo_load_page_def Let_def)

lemma fifo_run_length:
  "length (fifo_pageQueue s) \<le> fifo_capacity s \<Longrightarrow>
   length (fifo_pageQueue (fifo_run s pages)) \<le> fifo_capacity s"
proof (induction pages arbitrary: s)
  case Nil
  then show ?case by simp
next
  case (Cons page pages)
  have "length (fifo_pageQueue (snd (fifo_load_page s page)))
          \<le> fifo_capacity (snd (fifo_load_page s page))"
    using Cons.prems by (simp add: fifo_load_length)
  from Cons.IH [OF this] show ?case by simp
qed

lemma fifo_load_count:
  "fifo_page_fault_count (snd (fifo_load_page s page)) =
     (if page \<in> set (fifo_pageQueue s) then fifo_page_fault_count s
      else fifo_page_fault_count s + 1)"
  by (simp add: fifo_load_page_def Let_def)

lemma fifo_load_count_sint:
  assumes "sint (fifo_page_fault_count s) < 2147483647"
  shows "sint (fifo_page_fault_count (snd (fifo_load_page s page))) =
           (if page \<in> set (fifo_pageQueue s) then sint (fifo_page_fault_count s)
            else sint (fifo_page_fault_count s) + 1)"
  using assms by (simp add: fifo_load_count sint_succ)

lemma fifo_run_count_bound:
  "sint (fifo_page_fault_count s) + int (length pages) < 2147483648 \<Longrightarrow>
   sint (fifo_page_fault_count s) \<le> sint (fifo_page_fault_count (fifo_run s pages)) \<and>
   sint (fifo_page_fault_count (fifo_run s pages))
     \<le> sint (fifo_page_fault_count s) + int (length pages)"
proof (induction pages arbitrary: s)
  case Nil
  show ?case by simp
next
  case (Cons page pages)
  let ?t = "snd (fifo_load_page s page)"
  from Cons.prems have b: "sint (fifo_page_fault_count s) < 2147483647" by simp
  then have t: "sint (fifo_page_fault_count s) \<le> sint (fifo_page_fault_count ?t)"
    "sint (fifo_page_fault_count ?t) \<le> sint (fifo_page_fault_count s) + 1"
    by (simp_all add: fifo_load_count_sint)
  with Cons.prems have "sint (fifo_page_fault_count ?t) + int (length pages) < 2147483648"
    by simp
  from Cons.IH [OF this] t show ?case by simp
qed

lemma fifo_zero: "fifo_pageQueue (fifo_run (fifo_new 0) pages) = []"
  using fifo_run_length [of "fifo_new 0" pages] by (simp add: fifo_new_def)

lemma fifo_run_zero_replicate:
  "fifo_run \<lparr>fifo_pageQueue = [], fifo_capacity = 0, fifo_page_fault_count = k\<rparr>
     (replicate n page) =
   \<lparr>fifo_pageQueue = [], fifo_capacity = 0, fifo_page_fault_count = k + of_nat n\<rparr>"
  by (induction n arbitrary: k) (simp_all add: fifo_load_page_def Let_def add.assoc)

subsection \<open>\<^verbatim>\<open>lru_table\<close>\<close>

lemma map_insert_absent: "map_of m k = None \<Longrightarrow> map_insert m k v = (k, v) # m"
  by (simp add: map_insert_def)

lemma map_insert_present: "map_of m k \<noteq> None \<Longrightarrow> map_insert m k v = m"
  by (simp add: map_insert_def)

lemma absent_iff: "map_of m k = None \<longleftrightarrow> k \<notin> fst ` set m"
  by (simp add: map_of_eq_None_iff)

lemma lru_touch_absent:
  assumes "map_of m page = None"
  shows "lru_touch m page = (page, 1) # map (\<lambda>kvp. (fst kvp, snd kvp + 1)) m"
proof -
  have "map (\<lambda>kvp. if fst kvp = page then (fst kvp, 0) else kvp) m = m"
    using assms by (intro map_idI) (auto simp: absent_iff)
  then show ?thesis
    using assms by (simp add: lru_touch_def map_assign_def map_insert_def increment_all_def)
qed

lemma lru_touch_present:
  assumes "map_of m page \<noteq> None"
  shows "lru_touch m page =
           map (\<lambda>kvp. if fst kvp = page then (page, 1) else (fst kvp, snd kvp + 1)) m"
  using assms
  by (auto simp add: lru_touch_def map_assign_def map_insert_def increment_all_def)

lemma lru_touch_keys:
  "map fst (lru_touch m page) =
     (if map_of m page = None then page # map fst m else map fst m)"
  by (auto simp: lru_touch_absent lru_touch_present)

lemma lru_touch_length:
  "length (lru_touch m page) = (if map_of m page = None then length m + 1 else length m)"
  by (auto simp: lru_touch_absent lru_touch_present)

lemma lru_touch_set:
  "set (lru_touch m page) =
     insert (page, 1) ((\<lambda>kvp. (fst kvp, snd kvp + 1)) ` {kvp \<in> set m. fst kvp \<noteq> page})"
proof (cases "map_of m page = None")
  case True
  then have "{kvp \<in> set m. fst kvp \<noteq> page} = set m"
    by (auto simp: absent_iff)
  with True show ?thesis by (simp add: lru_touch_absent)
next
  case False
  then obtain c where "(page, c) \<in> set m"
    by (auto dest: map_of_SomeD)
  with False show ?thesis
    by (auto simp: lru_touch_present image_iff)
qed


lemma lru_touch_distinct_keys:
  "distinct (map fst m) \<Longrightarrow> distinct (map fst (lru_touch m page))"
  by (auto simp: lru_touch_keys absent_iff)

lemma lru_touch_page:
  "distinct (map fst m) \<Longrightarrow> map_of (lru_touch m page) page = Some 1"
proof -
  assume "distinct (map fst m)"
  then have "distinct (map fst (lru_touch m page))" by (rule lru_touch_distinct_keys)
  moreover have "(page, 1) \<in> set (lru_touch m page)" by (simp add: lru_touch_set)
  ultimately show ?thesis by (simp add: map_of_eq_Some_iff)
qed

lemma lru_touch_counters_inv:
  assumes "distinct (map fst m)" and "lru_counters_inv n m" and "n < 2 ^ 64 - 1"
  shows "lru_counters_inv (n + 1) (lru_touch m page)"
proof -
  have dc: "distinct (map snd m)" and r: "\<And>x. x \<in> set m \<Longrightarrow> 0 < unat (snd x) \<and> unat (snd x) \<le> n"
    using assms(2) by (auto simp: lru_counters_inv_def list_all_iff)
  have nz: "snd x \<noteq> 0" if "x \<in> set m" for x
    using r [OF that] by (simp add: unat_gt_0)
  have u: "unat (snd x + 1) = unat (snd x) + 1" if "x \<in> set m" for x
    using r [OF that] assms(3) by (intro unat_succ) simp
  have "list_all (\<lambda>kvp. 0 < unat (snd kvp) \<and> unat (snd kvp) \<le> n + 1) (lru_touch m page)"
    using r u by (auto simp: list_all_iff lru_touch_set)
  moreover have "distinct (map snd (lru_touch m page))"
  proof (cases "map_of m page = None")
    case True
    have "distinct (map (\<lambda>kvp. snd kvp + 1) m)"
      using dc by (simp add: distinct_map inj_on_def)
    moreover have "1 \<notin> (\<lambda>kvp. snd kvp + 1) ` set m"
      using nz by auto
    ultimately show ?thesis
      using True by (simp add: lru_touch_absent comp_def)
  next
    case False
    have d: "distinct m" using assms(1) by (simp add: distinct_map)
    have "inj_on (\<lambda>kvp. if fst kvp = page then 1 else snd kvp + 1) (set m)"
    proof (rule inj_onI)
      fix x y
      assume x: "x \<in> set m" and y: "y \<in> set m"
        and e: "(if fst x = page then 1 else snd x + 1) = (if fst y = page then 1 else snd y + 1)"
      have px: "snd x \<noteq> 0" and py: "snd y \<noteq> 0"
        using nz x y by simp_all
      have "inj_on fst (set m)" using assms(1) by (simp add: distinct_map)
      then have k: "fst x = fst y \<Longrightarrow> x = y"
        using x y by (simp add: inj_on_def)
      have "inj_on snd (set m)" using dc by (simp add: distinct_map)
      then have c: "snd x = snd y \<Longrightarrow> x = y"
        using x y by (simp add: inj_on_def)
      show "x = y"
      proof (cases "fst x = page")
        case True
        have "fst y = page"
        proof (rule ccontr)
          assume "fst y \<noteq> page"
          with True e have "snd y = 0" by simp
          with py show False by simp
        qed
        with True have "fst x = fst y" by simp
        then show ?thesis by (rule k)
      next
        case False
        have n: "fst y \<noteq> page"
        proof
          assume "fst y = page"
          with False e have "snd x = 0" by simp
          with px show False by simp
        qed
        with False e have "snd x = snd y" by simp
        then show ?thesis by (rule c)
      qed
    qed
    with d have "distinct (map (\<lambda>kvp. if fst kvp = page then 1 else snd kvp + 1) m)"
      by (simp add: distinct_map)
    moreover have "map snd (lru_touch m page) =
        map (\<lambda>kvp. if fst kvp = page then 1 else snd kvp + 1) m"
      using False by (simp add: lru_touch_present comp_def if_distrib cong: if_cong)
    ultimately show ?thesis by simp
  qed
  ultimately show ?thesis by (simp add: lru_counters_inv_def)
qed

lemma lru_touch_others:
  assumes "lru_counters_inv n m" and "n < 2 ^ 64 - 1"
    and "kvp \<in> set (lru_touch m page)" and "fst kvp \<noteq> page"
  shows "1 < snd kvp"
proof -
  from assms(3,4) obtain x where x: "x \<in> set m" "snd kvp = snd x + 1"
    by (auto simp: lru_touch_set)
  from assms(1) x(1) have r: "0 < unat (snd x)" "unat (snd x) \<le> n"
    by (auto simp: lru_counters_inv_def list_all_iff)
  with assms(2) have "unat (snd x + 1) = unat (snd x) + 1" by (intro unat_succ) simp
  with r(1) x(2) show ?thesis by (simp add: word_less_nat_alt)
qed

lemma max_element_from_in: "max_element_from x xs \<in> set (x # xs)"
  by (induction xs arbitrary: x) (auto split: if_splits)

lemma max_element_from_ge: "kvp \<in> set (x # xs) \<Longrightarrow> snd kvp \<le> snd (max_element_from x xs)"
proof (induction xs arbitrary: x kvp)
  case Nil
  then show ?case by simp
next
  case (Cons y ys)
  let ?l = "if snd x < snd y then y else x"
  have l: "snd x \<le> snd ?l" "snd y \<le> snd ?l" by auto
  have t: "snd ?l \<le> snd (max_element_from ?l ys)" by (rule Cons.IH [of ?l ?l]) simp
  from Cons.prems consider "kvp = x" | "kvp = y" | "kvp \<in> set ys" by auto
  then show ?case
  proof cases
    case 1
    with l(1) t show ?thesis by simp
  next
    case 2
    with l(2) t show ?thesis by simp
  next
    case 3
    then have "snd kvp \<le> snd (max_element_from ?l ys)" by (intro Cons.IH) simp
    then show ?thesis by simp
  qed
qed

lemma max_element_Some:
  "m \<noteq> [] \<Longrightarrow> \<exists>kvp. max_element m = Some kvp \<and> kvp \<in> set m \<and> (\<forall>x \<in> set m. snd x \<le> snd kvp)"
  using max_element_from_in max_element_from_ge by (cases m) auto

lemma max_element_in: "max_element m = Some kvp \<Longrightarrow> kvp \<in> set m"
  using max_element_from_in by (cases m) auto

lemma max_element_ge: "max_element m = Some kvp \<Longrightarrow> x \<in> set m \<Longrightarrow> snd x \<le> snd kvp"
  using max_element_Some [of m] by (cases m) auto

lemma max_element_unique:
  assumes "distinct (map snd m)" and "a \<in> set m" and "\<forall>x \<in> set m. snd x \<le> snd a"
  shows "max_element m = Some a"
proof -
  from assms(2) have "m \<noteq> []" by auto
  then obtain b where b: "max_element m = Some b" "b \<in> set m" "\<forall>x \<in> set m. snd x \<le> snd b"
    using max_element_Some by blast
  with assms have "snd a = snd b" by (simp add: order_antisym)
  moreover have "inj_on snd (set m)" using assms(1) by (simp add: distinct_map)
  ultimately have "a = b" using assms(2) b(2) by (simp add: inj_on_def)
  with b(1) show ?thesis by simp
qed

lemma max_element_perm:
  assumes "distinct (map snd m)" and "mset m' = mset m"
  shows "max_element m' = max_element m"
proof (cases "m = []")
  case True
  with assms(2) show ?thesis by simp
next
  case False
  then obtain b where b: "max_element m = Some b" "b \<in> set m" "\<forall>x \<in> set m. snd x \<le> snd b"
    using max_element_Some by blast
  have s: "set m' = set m" using assms(2) by (rule mset_eq_setD)
  have "mset (map snd m') = mset (map snd m)" using assms(2) by simp
  then have "distinct (map snd m')" using assms(1) by (metis mset_eq_imp_distinct_iff)
  then have "max_element m' = Some b"
    using b s by (intro max_element_unique) auto
  with b(1) show ?thesis by simp
qed


lemma distinct_map_remove1: "distinct (map f m) \<Longrightarrow> distinct (map f (remove1 x m))"
proof (induction m)
  case Nil
  then show ?case by simp
next
  case (Cons a m)
  have "f a \<notin> f ` set (remove1 x m)"
    using Cons.prems set_remove1_subset [of x m] by auto
  with Cons show ?case by simp
qed

lemma list_all_remove1: "list_all P m \<Longrightarrow> list_all P (remove1 x m)"
  using set_remove1_subset [of x m] by (auto simp: list_all_iff)

lemma lru_load_capacity [simp]: "lru_capacity (snd (lru_load_page s page)) = lru_capacity s"
  by (simp add: lru_load_page_def Let_def split: option.split)

lemma lru_run_capacity [simp]: "lru_capacity (lru_run s pages) = lru_capacity s"
  by (induction pages arbitrary: s) simp_all

lemma lru_load_count:
  "lru_page_fault_count (snd (lru_load_page s page)) =
     (if map_of (lru_pageMap s) page = None then lru_page_fault_count s + 1
      else lru_page_fault_count s)"
  by (simp add: lru_load_page_def Let_def split: option.split)

lemma lru_load_faulted:
  "fst (fst (lru_load_page s page)) = (map_of (lru_pageMap s) page = None)"
  by (simp add: lru_load_page_def Let_def split: option.split)

lemma lru_load_fits:
  "length (lru_touch (lru_pageMap s) page) \<le> lru_capacity s \<Longrightarrow>
   lru_load_page s page =
     ((map_of (lru_pageMap s) page = None, -1),
      s\<lparr>lru_pageMap := lru_touch (lru_pageMap s) page,
        lru_page_fault_count :=
          (if map_of (lru_pageMap s) page = None then lru_page_fault_count s + 1
           else lru_page_fault_count s)\<rparr>)"
  by (simp add: lru_load_page_def Let_def)

lemma lru_load_evicts:
  assumes "lru_capacity s < length (lru_touch (lru_pageMap s) page)"
  shows "\<exists>kvp. max_element (lru_touch (lru_pageMap s) page) = Some kvp \<and>
           lru_load_page s page =
             ((map_of (lru_pageMap s) page = None, fst kvp),
              s\<lparr>lru_pageMap := remove1 kvp (lru_touch (lru_pageMap s) page),
                lru_page_fault_count :=
                  (if map_of (lru_pageMap s) page = None then lru_page_fault_count s + 1
                   else lru_page_fault_count s)\<rparr>)"
proof -
  from assms have "lru_touch (lru_pageMap s) page \<noteq> []" by auto
  then obtain kvp where "max_element (lru_touch (lru_pageMap s) page) = Some kvp"
    using max_element_Some by blast
  with assms show ?thesis by (simp add: lru_load_page_def Let_def)
qed

lemma lru_load_pageMap:
  "lru_pageMap (snd (lru_load_page s page)) = lru_touch (lru_pageMap s) page \<or>
   (\<exists>kvp \<in> set (lru_touch (lru_pageMap s) page).
      lru_capacity s < length (lru_touch (lru_pageMap s) page) \<and>
      lru_pageMap (snd (lru_load_page s page)) = remove1 kvp (lru_touch (lru_pageMap s) page))"
proof (cases "lru_capacity s < length (lru_touch (lru_pageMap s) page)")
  case True
  then obtain kvp where m: "max_element (lru_touch (lru_pageMap s) page) = Some kvp"
    and r: "lru_pageMap (snd (lru_load_page s page)) = remove1 kvp (lru_touch (lru_pageMap s) page)"
    using lru_load_evicts [of s page] by auto
  from m have "kvp \<in> set (lru_touch (lru_pageMap s) page)" by (rule max_element_in)
  with True r show ?thesis by blast
next
  case False
  then have "length (lru_touch (lru_pageMap s) page) \<le> lru_capacity s" by simp
  then show ?thesis by (simp add: lru_load_fits)
qed

lemma lru_load_inv:
  assumes "lru_inv s"
  shows "lru_inv (snd (lru_load_page s page))"
proof -
  let ?m = "lru_touch (lru_pageMap s) page"
  from assms have k: "distinct (map fst ?m)" and l: "length ?m \<le> lru_capacity s + 1"
    by (simp_all add: lru_inv_def lru_touch_distinct_keys lru_touch_length)
  from lru_load_pageMap [of s page] show ?thesis
  proof
    assume e: "lru_pageMap (snd (lru_load_page s page)) = ?m"
    have "length ?m \<le> lru_capacity s"
    proof (rule ccontr)
      assume "\<not> length ?m \<le> lru_capacity s"
      then have "lru_capacity s < length ?m" by simp
      then obtain kvp where "max_element ?m = Some kvp"
        and r: "lru_pageMap (snd (lru_load_page s page)) = remove1 kvp ?m"
        using lru_load_evicts [of s page] by auto
      then have "kvp \<in> set ?m" by (simp add: max_element_in)
      then have "length (remove1 kvp ?m) = length ?m - 1" by (simp add: length_remove1)
      with e r \<open>lru_capacity s < length ?m\<close> show False by simp
    qed
    with k e show ?thesis by (simp add: lru_inv_def)
  next
    assume "\<exists>kvp \<in> set ?m. lru_capacity s < length ?m \<and>
      lru_pageMap (snd (lru_load_page s page)) = remove1 kvp ?m"
    then obtain kvp where i: "kvp \<in> set ?m"
      and r: "lru_pageMap (snd (lru_load_page s page)) = remove1 kvp ?m" by blast
    from i have "length (remove1 kvp ?m) = length ?m - 1" by (simp add: length_remove1)
    with l have "length (remove1 kvp ?m) \<le> lru_capacity s" by simp
    with k show ?thesis by (simp add: r lru_inv_def distinct_map_remove1)
  qed
qed

lemma lru_counters_inv_remove1:
  "lru_counters_inv n m \<Longrightarrow> lru_counters_inv n (remove1 x m)"
  by (simp add: lru_counters_inv_def distinct_map_remove1 list_all_remove1)

lemma lru_load_counters_inv:
  assumes "lru_inv s" and "lru_counters_inv n (lru_pageMap s)" and "n < 2 ^ 64 - 1"
  shows "lru_counters_inv (n + 1) (lru_pageMap (snd (lru_load_page s page)))"
proof -
  have "lru_counters_inv (n + 1) (lru_touch (lru_pageMap s) page)"
    using assms by (intro lru_touch_counters_inv) (simp_all add: lru_inv_def)
  with lru_load_pageMap [of s page] show ?thesis
    by (auto simp: lru_counters_inv_remove1)
qed

lemma lru_new_inv: "lru_inv (lru_new c)"
  by (simp add: lru_inv_def lru_new_def)

lemma lru_run_inv: "lru_inv s \<Longrightarrow> lru_inv (lru_run s pages)"
  by (induction pages arbitrary: s) (simp_all add: lru_load_inv)

lemma lru_run_snoc: "lru_run s (pages @ [page]) = snd (lru_load_page (lru_run s pages) page)"
  by (induction pages arbitrary: s) simp_all

lemma lru_run_counters_inv:
  "lru_inv s \<Longrightarrow> lru_counters_inv n (lru_pageMap s) \<Longrightarrow> n + length pages < 2 ^ 64 \<Longrightarrow>
   lru_counters_inv (n + length pages) (lru_pageMap (lru_run s pages))"
proof (induction pages arbitrary: s n)
  case Nil
  then show ?case by simp
next
  case (Cons page pages)
  let ?t = "snd (lru_load_page s page)"
  from Cons.prems(3) have b: "n < 2 ^ 64 - 1" by simp
  have "lru_inv ?t" using Cons.prems(1) by (rule lru_load_inv)
  moreover have "lru_counters_inv (n + 1) (lru_pageMap ?t)"
    using Cons.prems(1,2) b by (rule lru_load_counters_inv)
  moreover from Cons.prems(3) have "n + 1 + length pages < 2 ^ 64" by simp
  ultimately have "lru_counters_inv (n + 1 + length pages) (lru_pageMap (lru_run ?t pages))"
    by (rule Cons.IH)
  then show ?case by (simp add: add.assoc)
qed

lemma lru_reach_counters_inv:
  assumes "length pages < 2 ^ 64"
  shows "lru_counters_inv (length pages) (lru_pageMap (lru_run (lru_new c) pages))"
proof -
  have "lru_counters_inv (0 + length pages) (lru_pageMap (lru_run (lru_new c) pages))"
    using assms by (intro lru_run_counters_inv) (simp_all add: lru_new_inv, simp add: lru_counters_inv_def lru_new_def)
  then show ?thesis by simp
qed

lemma lru_load_count_sint:
  assumes "sint (lru_page_fault_count s) < 2147483647"
  shows "sint (lru_page_fault_count (snd (lru_load_page s page))) =
           (if map_of (lru_pageMap s) page = None then sint (lru_page_fault_count s) + 1
            else sint (lru_page_fault_count s))"
  using assms by (simp add: lru_load_count sint_succ)

lemma lru_run_count_bound:
  "sint (lru_page_fault_count s) + int (length pages) < 2147483648 \<Longrightarrow>
   sint (lru_page_fault_count s) \<le> sint (lru_page_fault_count (lru_run s pages)) \<and>
   sint (lru_page_fault_count (lru_run s pages))
     \<le> sint (lru_page_fault_count s) + int (length pages)"
proof (induction pages arbitrary: s)
  case Nil
  show ?case by simp
next
  case (Cons page pages)
  let ?t = "snd (lru_load_page s page)"
  from Cons.prems have b: "sint (lru_page_fault_count s) < 2147483647" by simp
  then have t: "sint (lru_page_fault_count s) \<le> sint (lru_page_fault_count ?t)"
    "sint (lru_page_fault_count ?t) \<le> sint (lru_page_fault_count s) + 1"
    by (simp_all add: lru_load_count_sint)
  with Cons.prems have "sint (lru_page_fault_count ?t) + int (length pages) < 2147483648"
    by simp
  from Cons.IH [OF this] t show ?case by simp
qed

lemma lru_load_hit:
  assumes "lru_inv s" and "page \<in> set (lru_get_page_list s)"
  shows "lru_load_page s page = ((False, -1), s\<lparr>lru_pageMap := lru_touch (lru_pageMap s) page\<rparr>)"
    and "lru_get_page_list (snd (lru_load_page s page)) = lru_get_page_list s"
proof -
  from assms(2) have a: "map_of (lru_pageMap s) page \<noteq> None"
    by (simp add: absent_iff lru_get_page_list_def)
  then have "length (lru_touch (lru_pageMap s) page) = length (lru_pageMap s)"
    by (simp add: lru_touch_present)
  with assms(1) have "length (lru_touch (lru_pageMap s) page) \<le> lru_capacity s"
    by (simp add: lru_inv_def)
  with a show r: "lru_load_page s page = ((False, -1), s\<lparr>lru_pageMap := lru_touch (lru_pageMap s) page\<rparr>)"
    by (simp add: lru_load_fits)
  from a show "lru_get_page_list (snd (lru_load_page s page)) = lru_get_page_list s"
    by (simp add: r lru_get_page_list_def lru_touch_keys)
qed

lemma lru_zero: "lru_pageMap (lru_run (lru_new 0) pages) = []"
  using lru_run_inv [OF lru_new_inv, of 0 pages] by (simp add: lru_inv_def lru_new_def)

lemma lru_run_zero_replicate:
  "lru_run \<lparr>lru_pageMap = [], lru_capacity = 0, lru_page_fault_count = k\<rparr>
     (replicate n page) =
   \<lparr>lru_pageMap = [], lru_capacity = 0, lru_page_fault_count = k + of_nat n\<rparr>"
  by (induction n arbitrary: k)
    (simp_all add: lru_load_page_def lru_touch_def map_assign_def map_insert_def
       increment_all_def Let_def add.assoc)

lemma lru_run_hits_replicate:
  "lru_run \<lparr>lru_pageMap = [(2, 1), (1, k)], lru_capacity = 2, lru_page_fault_count = f\<rparr>
     (replicate n 2) =
   \<lparr>lru_pageMap = [(2, 1), (1, k + of_nat n)], lru_capacity = 2, lru_page_fault_count = f\<rparr>"
  by (induction n arbitrary: k)
    (simp_all add: lru_load_page_def lru_touch_def map_assign_def map_insert_def
       increment_all_def Let_def add.assoc)

lemma lru_run_two_pages:
  "lru_run (lru_new 2) (1 # replicate (Suc n) 2) =
   \<lparr>lru_pageMap = [(2, 1), (1, 2 + of_nat n)], lru_capacity = 2, lru_page_fault_count = 2\<rparr>"
proof -
  have "lru_run (lru_new 2) (1 # replicate (Suc n) 2) =
      lru_run \<lparr>lru_pageMap = [(2, 1), (1, 2)], lru_capacity = 2, lru_page_fault_count = 2\<rparr>
        (replicate n 2)"
    by (simp add: lru_new_def lru_load_page_def lru_touch_def map_assign_def map_insert_def
          increment_all_def Let_def)
  then show ?thesis by (simp add: lru_run_hits_replicate)
qed

subsection \<open>Every loop returns\<close>

lemma find_loop_returns:
  "first \<le> length q \<Longrightarrow>
   \<exists>it. find_loop q val first = Some it \<and> first \<le> it \<and> it \<le> length q \<and>
        (it = length q \<longleftrightarrow> val \<notin> set (drop first q))"
proof (induction "length q - first" arbitrary: first)
  case 0
  then show ?case by (subst find_loop.simps) simp
next
  case (Suc k)
  then have lt: "first < length q" by simp
  show ?case
  proof (cases "q ! first = val")
    case True
    with lt show ?thesis
      by (subst find_loop.simps) (auto simp: Cons_nth_drop_Suc [symmetric])
  next
    case False
    from Suc have "k = length q - (first + 1)" "first + 1 \<le> length q" by simp_all
    from Suc.hyps(1) [OF this] obtain it where
      it: "find_loop q val (first + 1) = Some it" "first + 1 \<le> it" "it \<le> length q"
        "it = length q \<longleftrightarrow> val \<notin> set (drop (first + 1) q)" by blast
    have "drop first q = q ! first # drop (first + 1) q"
      using lt by (simp add: Cons_nth_drop_Suc)
    with False it lt show ?thesis
      by (subst find_loop.simps) auto
  qed
qed

lemma find_loop_0: "\<exists>it. find_loop q val 0 = Some it \<and> (it = length q \<longleftrightarrow> val \<notin> set q)"
  using find_loop_returns [of 0 q val] by auto

lemma fifo_iter_eq: "fifo_load_page_iter s page = Some (fifo_load_page s page)"
proof -
  obtain it where "find_loop (fifo_pageQueue s) page 0 = Some it"
    and "it = length (fifo_pageQueue s) \<longleftrightarrow> page \<notin> set (fifo_pageQueue s)"
    using find_loop_0 by blast
  then show ?thesis
    by (simp add: fifo_load_page_iter_def fifo_load_page_def)
qed

lemma increment_loop_returns:
  "it \<le> length m \<Longrightarrow>
   increment_loop m it = Some (take it m @ map (\<lambda>kvp. (fst kvp, snd kvp + 1)) (drop it m))"
proof (induction "length m - it" arbitrary: it m)
  case 0
  then show ?case by (subst increment_loop.simps) simp
next
  case (Suc k)
  then have lt: "it < length m" by simp
  let ?m = "m[it := (fst (m ! it), snd (m ! it) + 1)]"
  from Suc have "k = length ?m - (it + 1)" "it + 1 \<le> length ?m" by simp_all
  from Suc.hyps(1) [OF this]
  have "increment_loop ?m (it + 1) =
          Some (take (it + 1) ?m @ map (\<lambda>kvp. (fst kvp, snd kvp + 1)) (drop (it + 1) ?m))" .
  moreover have "take (it + 1) ?m = take it m @ [(fst (m ! it), snd (m ! it) + 1)]"
    using lt by (simp add: take_Suc_conv_app_nth)
  moreover have "drop (it + 1) ?m = drop (it + 1) m" by simp
  moreover have "drop it m = m ! it # drop (it + 1) m"
    using lt by (simp add: Cons_nth_drop_Suc)
  ultimately show ?case
    using lt by (subst increment_loop.simps) simp
qed

lemma increment_loop_0: "increment_loop m 0 = Some (increment_all m)"
  using increment_loop_returns [of 0 m] by (simp add: increment_all_def)


lemma max_element_loop_returns:
  assumes "largest < first" and "first \<le> length m"
    and "\<forall>j<largest. snd (m ! j) < snd (m ! largest)"
    and "\<forall>j<first. snd (m ! j) \<le> snd (m ! largest)"
  shows "\<exists>it. max_element_loop m largest first = Some it \<and> it < length m \<and>
           m ! it = max_element_from (m ! largest) (drop first m) \<and>
           (\<forall>j<it. snd (m ! j) < snd (m ! it))"
  using assms
proof (induction "length m - first" arbitrary: largest first)
  case 0
  then show ?case by (subst max_element_loop.simps) simp
next
  case (Suc k)
  then have lt: "first < length m" by simp
  let ?l = "if snd (m ! largest) < snd (m ! first) then first else largest"
  have a: "k = length m - (first + 1)" "?l < first + 1" "first + 1 \<le> length m"
    using Suc.hyps(2) Suc.prems(1) lt by auto
  have b: "\<forall>j<?l. snd (m ! j) < snd (m ! ?l)"
  proof (intro allI impI)
    fix j assume j: "j < ?l"
    show "snd (m ! j) < snd (m ! ?l)"
    proof (cases "snd (m ! largest) < snd (m ! first)")
      case True
      with j have "j < first" by simp
      with Suc.prems(4) have "snd (m ! j) \<le> snd (m ! largest)" by simp
      with True show ?thesis by simp
    next
      case False
      with j Suc.prems(3) show ?thesis by simp
    qed
  qed
  have c: "\<forall>j<first + 1. snd (m ! j) \<le> snd (m ! ?l)"
  proof (intro allI impI)
    fix j assume j: "j < first + 1"
    show "snd (m ! j) \<le> snd (m ! ?l)"
    proof (cases "j = first")
      case True
      then show ?thesis by (simp add: not_less)
    next
      case False
      with j have "j < first" by simp
      with Suc.prems(4) have "snd (m ! j) \<le> snd (m ! largest)" by simp
      then show ?thesis by auto
    qed
  qed
  from Suc.hyps(1) [OF a b c] obtain it where
    it: "max_element_loop m ?l (first + 1) = Some it" "it < length m"
      "m ! it = max_element_from (m ! ?l) (drop (first + 1) m)"
      "\<forall>j<it. snd (m ! j) < snd (m ! it)" by blast
  have d: "drop first m = m ! first # drop (first + 1) m"
    using lt by (simp add: Cons_nth_drop_Suc)
  have "max_element_from (m ! largest) (drop first m) = max_element_from (m ! ?l) (drop (first + 1) m)"
    by (simp add: d)
  with it lt show ?case
    by (subst max_element_loop.simps) simp
qed

lemma max_element_it_returns:
  assumes "m \<noteq> []"
  shows "\<exists>it. max_element_it m = Some it \<and> it < length m \<and> max_element m = Some (m ! it) \<and>
           (\<forall>j<it. snd (m ! j) < snd (m ! it))"
proof -
  from assms obtain x xs where m: "m = x # xs" by (cases m) auto
  have "\<exists>it. max_element_loop m 0 1 = Some it \<and> it < length m \<and>
           m ! it = max_element_from (m ! 0) (drop 1 m) \<and>
           (\<forall>j<it. snd (m ! j) < snd (m ! it))"
    by (rule max_element_loop_returns) (simp_all add: m)
  then show ?thesis by (auto simp: max_element_it_def m)
qed

lemma erase_at_remove1:
  assumes "it < length m" and "\<forall>j<it. m ! j \<noteq> m ! it"
  shows "erase_at m it = remove1 (m ! it) m"
proof -
  have "m ! it \<notin> set (take it m)"
  proof
    assume "m ! it \<in> set (take it m)"
    then obtain j where "j < length (take it m)" "take it m ! j = m ! it"
      by (auto simp: in_set_conv_nth)
    then have "j < it" "m ! j = m ! it" by simp_all
    with assms(2) show False by simp
  qed
  moreover have "m = take it m @ m ! it # drop (Suc it) m"
    using assms(1) by (rule id_take_nth_drop)
  ultimately have "remove1 (m ! it) m = take it m @ drop (Suc it) m"
    by (metis remove1.simps(2) remove1_append)
  then show ?thesis by (simp add: erase_at_def)
qed

lemma lru_iter_eq: "lru_load_page_iter s page = Some (lru_load_page s page)"
proof -
  let ?m = "lru_touch (lru_pageMap s) page"
  have i: "increment_loop (map_assign (if map_of (lru_pageMap s) page = None
             then map_insert (lru_pageMap s) page 0 else lru_pageMap s) page 0) 0 = Some ?m"
    by (simp add: increment_loop_0 lru_touch_def)
  show ?thesis
  proof (cases "lru_capacity s < length ?m")
    case True
    then have "?m \<noteq> []" by auto
    then obtain it where it: "max_element_it ?m = Some it" "it < length ?m"
      "max_element ?m = Some (?m ! it)" "\<forall>j<it. snd (?m ! j) < snd (?m ! it)"
      using max_element_it_returns by blast
    from it(4) have "\<forall>j<it. ?m ! j \<noteq> ?m ! it" by auto
    with it(2) have "erase_at ?m it = remove1 (?m ! it) ?m" by (rule erase_at_remove1)
    moreover from it(2) have "it \<noteq> length ?m" by simp
    ultimately show ?thesis
      using True it(1,3) by (simp add: lru_load_page_iter_def lru_load_page_def i Let_def)
  next
    case False
    then show ?thesis
      by (simp add: lru_load_page_iter_def lru_load_page_def i Let_def)
  qed
qed

subsection \<open>Uniqueness of the greatest counter\<close>

lemma max_element_from_last_in: "max_element_from_last x xs \<in> set (x # xs)"
  by (induction xs arbitrary: x) (auto split: if_splits)

lemma max_element_from_last_ge:
  "kvp \<in> set (x # xs) \<Longrightarrow> snd kvp \<le> snd (max_element_from_last x xs)"
proof (induction xs arbitrary: x kvp)
  case Nil
  then show ?case by simp
next
  case (Cons y ys)
  let ?l = "if snd x \<le> snd y then y else x"
  have l: "snd x \<le> snd ?l" "snd y \<le> snd ?l" by auto
  have t: "snd ?l \<le> snd (max_element_from_last ?l ys)" by (rule Cons.IH [of ?l ?l]) simp
  from Cons.prems consider "kvp = x" | "kvp = y" | "kvp \<in> set ys" by auto
  then show ?case
  proof cases
    case 1
    with l(1) t show ?thesis by simp
  next
    case 2
    with l(2) t show ?thesis by simp
  next
    case 3
    then have "snd kvp \<le> snd (max_element_from_last ?l ys)" by (intro Cons.IH) simp
    then show ?thesis by simp
  qed
qed

lemma max_element_last_eq:
  assumes "distinct (map snd m)"
  shows "max_element_last m = max_element m"
proof (cases m)
  case Nil
  then show ?thesis by simp
next
  case (Cons x xs)
  let ?a = "max_element_from_last x xs"
  have "?a \<in> set m" using max_element_from_last_in [of x xs] by (simp add: Cons)
  moreover have "\<forall>y \<in> set m. snd y \<le> snd ?a"
    using max_element_from_last_ge [of _ x xs] by (simp add: Cons)
  ultimately have "max_element m = Some ?a"
    using assms by (intro max_element_unique)
  then show ?thesis by (simp add: Cons)
qed

lemma filter_counter:
  "distinct (map snd m) \<Longrightarrow> (k, v) \<in> set m \<Longrightarrow> filter (\<lambda>kvp. snd kvp = v) m = [(k, v)]"
proof (induction m)
  case Nil
  then show ?case by simp
next
  case (Cons x m)
  show ?case
  proof (cases "x = (k, v)")
    case True
    with Cons.prems(1) have "v \<notin> snd ` set m" by auto
    then have "filter (\<lambda>kvp. snd kvp = v) m = []"
      by (auto simp: filter_empty_conv)
    with True show ?thesis by simp
  next
    case False
    with Cons.prems have i: "(k, v) \<in> set m" and n: "snd x \<notin> snd ` set m" by auto
    have "snd x \<noteq> v"
    proof
      assume "snd x = v"
      with i have "snd x \<in> snd ` set m" by (simp add: image_iff) (metis snd_conv)
      with n show False by simp
    qed
    with Cons i show ?thesis by simp
  qed
qed

lemma lru_load_no_self_eviction:
  assumes "lru_inv s" and "lru_counters_inv n (lru_pageMap s)" and "n < 2 ^ 64 - 1"
    and "0 < lru_capacity s"
  shows "(page, 1) \<in> set (lru_pageMap (snd (lru_load_page s page)))"
proof -
  let ?m = "lru_touch (lru_pageMap s) page"
  have p: "(page, 1) \<in> set ?m" by (simp add: lru_touch_set)
  show ?thesis
  proof (cases "lru_capacity s < length ?m")
    case True
    then obtain kvp where m: "max_element ?m = Some kvp"
      and r: "lru_pageMap (snd (lru_load_page s page)) = remove1 kvp ?m"
      using lru_load_evicts [of s page] by auto
    from True assms(4) have "1 < length ?m" by simp
    then obtain a b rest where abr: "?m = a # b # rest"
      by (cases ?m; cases "tl ?m") auto
    have d: "distinct (map fst ?m)"
      using assms(1) by (simp add: lru_inv_def lru_touch_distinct_keys)
    with abr have "fst a \<noteq> fst b" by auto
    have "\<exists>x. x \<in> set ?m \<and> fst x \<noteq> page"
    proof (cases "fst a = page")
      case True
      with \<open>fst a \<noteq> fst b\<close> have "b \<in> set ?m \<and> fst b \<noteq> page" by (simp add: abr)
      then show ?thesis ..
    next
      case False
      then have "a \<in> set ?m \<and> fst a \<noteq> page" by (simp add: abr)
      then show ?thesis ..
    qed
    then obtain x where x: "x \<in> set ?m" "fst x \<noteq> page" by blast
    have "1 < snd x" using assms(2,3) x by (rule lru_touch_others)
    moreover have "snd x \<le> snd kvp" using m x(1) by (rule max_element_ge)
    ultimately have "kvp \<noteq> (page, 1)" by auto
    with p show ?thesis by (simp add: r)
  next
    case False
    then have "length ?m \<le> lru_capacity s" by simp
    with p show ?thesis by (simp add: lru_load_fits)
  qed
qed

lemma lru_touch_mset:
  assumes "mset m' = mset m"
  shows "mset (lru_touch m' page) = mset (lru_touch m page)"
proof -
  have s: "set m' = set m" using assms by (rule mset_eq_setD)
  then have a: "map_of m' page = None \<longleftrightarrow> map_of m page = None"
    by (simp add: absent_iff)
  have f: "mset (map f m') = mset (map f m)" for f :: "page \<times> size_t \<Rightarrow> page \<times> size_t"
    using assms by (metis mset_map)
  show ?thesis
  proof (cases "map_of m page = None")
    case True
    with a have "map_of m' page = None" by simp
    with True f show ?thesis by (simp add: lru_touch_absent)
  next
    case False
    with a have "map_of m' page \<noteq> None" by simp
    with False f show ?thesis by (simp add: lru_touch_present)
  qed
qed

lemma lru_load_perm:
  assumes "distinct (map snd (lru_touch (lru_pageMap s) page))"
    and "mset m' = mset (lru_pageMap s)"
  shows "fst (lru_load_page (s\<lparr>lru_pageMap := m'\<rparr>) page) = fst (lru_load_page s page) \<and>
         mset (lru_pageMap (snd (lru_load_page (s\<lparr>lru_pageMap := m'\<rparr>) page))) =
         mset (lru_pageMap (snd (lru_load_page s page)))"
proof -
  let ?m = "lru_touch (lru_pageMap s) page" and ?m' = "lru_touch m' page"
  have t: "mset ?m' = mset ?m" using assms(2) by (rule lru_touch_mset)
  then have l: "length ?m' = length ?m" by (metis size_mset)
  have "set m' = set (lru_pageMap s)" using assms(2) by (rule mset_eq_setD)
  then have a: "map_of m' page = None \<longleftrightarrow> map_of (lru_pageMap s) page = None"
    by (simp add: absent_iff)
  have x: "max_element ?m' = max_element ?m" using assms(1) t by (rule max_element_perm)
  have "fst (lru_load_page (s\<lparr>lru_pageMap := m'\<rparr>) page) = fst (lru_load_page s page)"
    by (simp add: lru_load_page_def Let_def l a x split: option.split)
  moreover have "mset (lru_pageMap (snd (lru_load_page (s\<lparr>lru_pageMap := m'\<rparr>) page))) =
         mset (lru_pageMap (snd (lru_load_page s page)))"
    using t by (simp add: lru_load_page_def Let_def l a x split: option.split)
  ultimately show ?thesis ..
qed

section \<open>The claims\<close>

lemmas fifo_eval = fifo_new_def fifo_load_page_def fifo_get_page_list_def
  fifo_get_page_fault_count_def

lemmas lru_eval = lru_new_def lru_load_page_def lru_touch_def map_assign_def map_insert_def
  increment_all_def lru_get_page_list_def lru_get_page_fault_count_def

text \<open>
  C1. Whatever the capacity \<open>c\<close> and the sequence of pages loaded into a table
  constructed with it, after each call (after the first \<open>n\<close> calls, for every
  \<open>n\<close>) \<^verbatim>\<open>get_page_list()\<close> returns at most \<open>c\<close> pages. This holds for
  \<^verbatim>\<open>fifo_table\<close> and for \<^verbatim>\<open>lru_table\<close>.
\<close>

theorem capacity_invariant:
  "length (fifo_get_page_list (fifo_run (fifo_new c) (take n pages))) \<le> c \<and>
   length (lru_get_page_list (lru_run (lru_new c) (take n pages))) \<le> c"
proof
  show "length (fifo_get_page_list (fifo_run (fifo_new c) (take n pages))) \<le> c"
    using fifo_run_length [of "fifo_new c" "take n pages"]
    by (simp add: fifo_new_def fifo_get_page_list_def)
  have "lru_inv (lru_run (lru_new c) (take n pages))"
    by (simp add: lru_run_inv lru_new_inv)
  then show "length (lru_get_page_list (lru_run (lru_new c) (take n pages))) \<le> c"
    by (simp add: lru_inv_def lru_get_page_list_def lru_new_def)
qed

text \<open>
  C2, as stated, fails at the top of the range of the fault counter. After
  \<open>2147483647\<close> calls that all fault (here on a table of capacity 0) the counter of
  either table is \<open>2147483647\<close>, and the next fault makes it \<open>-2147483648\<close>: it
  has decreased, and not increased by 1.
\<close>

theorem fault_count_wrap_counterexample:
  "fifo_get_page_fault_count (fifo_run (fifo_new 0) (replicate 2147483647 7)) = 2147483647 \<and>
   fst (fifo_load_page (fifo_run (fifo_new 0) (replicate 2147483647 7)) 7) = (True, 7) \<and>
   fifo_get_page_fault_count
     (snd (fifo_load_page (fifo_run (fifo_new 0) (replicate 2147483647 7)) 7)) = - 2147483648 \<and>
   lru_get_page_fault_count (lru_run (lru_new 0) (replicate 2147483647 7)) = 2147483647 \<and>
   fst (lru_load_page (lru_run (lru_new 0) (replicate 2147483647 7)) 7) = (True, 7) \<and>
   lru_get_page_fault_count
     (snd (lru_load_page (lru_run (lru_new 0) (replicate 2147483647 7)) 7)) = - 2147483648"
proof -
  have f: "fifo_run (fifo_new 0) (replicate 2147483647 7) =
      \<lparr>fifo_pageQueue = [], fifo_capacity = 0, fifo_page_fault_count = 2147483647\<rparr>"
    using fifo_run_zero_replicate [of 0 2147483647 7] by (simp add: fifo_new_def)
  have l: "lru_run (lru_new 0) (replicate 2147483647 7) =
      \<lparr>lru_pageMap = [], lru_capacity = 0, lru_page_fault_count = 2147483647\<rparr>"
    using lru_run_zero_replicate [of 0 2147483647 7] by (simp add: lru_new_def)
  show ?thesis
    unfolding f l by (simp add: fifo_eval lru_eval Let_def)
qed

text \<open>
  C2, amended. In every state of either table, \<^verbatim>\<open>load_page(page)\<close> leaves the fault
  counter unchanged when the page is resident and increments the 32-bit field when it is
  not, which is also when the call reports a fault. While the counter is below
  \<open>2147483647\<close>, the value that \<^verbatim>\<open>get_page_fault_count()\<close> returns increases by
  exactly 1 if and only if the page was absent before the call, and is otherwise
  unchanged; and over any further sequence of calls that cannot take the counter past
  \<open>2147483647\<close>, in particular over fewer than \<open>2^31\<close> calls on a new table, it does
  not decrease.
\<close>

theorem fault_count_step:
  "fifo_page_fault_count (snd (fifo_load_page s page)) =
     (if page \<in> set (fifo_get_page_list s) then fifo_page_fault_count s
      else fifo_page_fault_count s + 1) \<and>
   fst (fst (fifo_load_page s page)) = (page \<notin> set (fifo_get_page_list s)) \<and>
   (fifo_get_page_fault_count s < 2147483647 \<longrightarrow>
      fifo_get_page_fault_count (snd (fifo_load_page s page)) =
        (if page \<in> set (fifo_get_page_list s) then fifo_get_page_fault_count s
         else fifo_get_page_fault_count s + 1) \<and>
      (fifo_get_page_fault_count (snd (fifo_load_page s page)) = fifo_get_page_fault_count s + 1)
        = (page \<notin> set (fifo_get_page_list s))) \<and>
   (fifo_get_page_fault_count s + int (length pages) < 2147483648 \<longrightarrow>
      fifo_get_page_fault_count s \<le> fifo_get_page_fault_count (fifo_run s pages)) \<and>
   (int (length pages) < 2147483648 \<longrightarrow>
      0 \<le> fifo_get_page_fault_count (fifo_run (fifo_new c) pages)) \<and>
   lru_page_fault_count (snd (lru_load_page t page)) =
     (if page \<in> set (lru_get_page_list t) then lru_page_fault_count t
      else lru_page_fault_count t + 1) \<and>
   fst (fst (lru_load_page t page)) = (page \<notin> set (lru_get_page_list t)) \<and>
   (lru_get_page_fault_count t < 2147483647 \<longrightarrow>
      lru_get_page_fault_count (snd (lru_load_page t page)) =
        (if page \<in> set (lru_get_page_list t) then lru_get_page_fault_count t
         else lru_get_page_fault_count t + 1) \<and>
      (lru_get_page_fault_count (snd (lru_load_page t page)) = lru_get_page_fault_count t + 1)
        = (page \<notin> set (lru_get_page_list t))) \<and>
   (lru_get_page_fault_count t + int (length pages) < 2147483648 \<longrightarrow>
      lru_get_page_fault_count t \<le> lru_get_page_fault_count (lru_run t pages)) \<and>
   (int (length pages) < 2147483648 \<longrightarrow>
      0 \<le> lru_get_page_fault_count (lru_run (lru_new c) pages))"
proof -
  have a: "map_of (lru_pageMap t) page = None \<longleftrightarrow> page \<notin> set (lru_get_page_list t)"
    by (simp add: absent_iff lru_get_page_list_def)
  have f1: "fifo_page_fault_count (snd (fifo_load_page s page)) =
     (if page \<in> set (fifo_get_page_list s) then fifo_page_fault_count s
      else fifo_page_fault_count s + 1)"
    by (simp add: fifo_get_page_list_def fifo_load_count)
  have f2: "fst (fst (fifo_load_page s page)) = (page \<notin> set (fifo_get_page_list s))"
    by (simp add: fifo_load_page_def fifo_get_page_list_def Let_def)
  have f3: "fifo_get_page_fault_count (snd (fifo_load_page s page)) =
        (if page \<in> set (fifo_get_page_list s) then fifo_get_page_fault_count s
         else fifo_get_page_fault_count s + 1) \<and>
      (fifo_get_page_fault_count (snd (fifo_load_page s page)) = fifo_get_page_fault_count s + 1)
        = (page \<notin> set (fifo_get_page_list s))"
    if "fifo_get_page_fault_count s < 2147483647"
    using that
    by (simp add: fifo_get_page_fault_count_def fifo_get_page_list_def fifo_load_count_sint)
  have f4: "fifo_get_page_fault_count s \<le> fifo_get_page_fault_count (fifo_run s pages)"
    if "fifo_get_page_fault_count s + int (length pages) < 2147483648"
    using that fifo_run_count_bound [of s pages] by (simp add: fifo_get_page_fault_count_def)
  have f5: "0 \<le> fifo_get_page_fault_count (fifo_run (fifo_new c) pages)"
    if "int (length pages) < 2147483648"
    using that fifo_run_count_bound [of "fifo_new c" pages]
    by (simp add: fifo_get_page_fault_count_def fifo_new_def)
  have l1: "lru_page_fault_count (snd (lru_load_page t page)) =
     (if page \<in> set (lru_get_page_list t) then lru_page_fault_count t
      else lru_page_fault_count t + 1)"
    unfolding lru_load_count a by simp
  have l2: "fst (fst (lru_load_page t page)) = (page \<notin> set (lru_get_page_list t))"
    unfolding lru_load_faulted a by simp
  have l3: "lru_get_page_fault_count (snd (lru_load_page t page)) =
        (if page \<in> set (lru_get_page_list t) then lru_get_page_fault_count t
         else lru_get_page_fault_count t + 1) \<and>
      (lru_get_page_fault_count (snd (lru_load_page t page)) = lru_get_page_fault_count t + 1)
        = (page \<notin> set (lru_get_page_list t))"
    if b: "lru_get_page_fault_count t < 2147483647"
  proof -
    from b have "sint (lru_page_fault_count t) < 2147483647"
      by (simp add: lru_get_page_fault_count_def)
    then have "sint (lru_page_fault_count (snd (lru_load_page t page))) =
        (if map_of (lru_pageMap t) page = None then sint (lru_page_fault_count t) + 1
         else sint (lru_page_fault_count t))"
      by (rule lru_load_count_sint)
    then have "sint (lru_page_fault_count (snd (lru_load_page t page))) =
        (if page \<in> set (lru_get_page_list t) then sint (lru_page_fault_count t)
         else sint (lru_page_fault_count t) + 1)"
      unfolding a by simp
    then show ?thesis by (simp add: lru_get_page_fault_count_def)
  qed
  have l4: "lru_get_page_fault_count t \<le> lru_get_page_fault_count (lru_run t pages)"
    if "lru_get_page_fault_count t + int (length pages) < 2147483648"
    using that lru_run_count_bound [of t pages] by (simp add: lru_get_page_fault_count_def)
  have l5: "0 \<le> lru_get_page_fault_count (lru_run (lru_new c) pages)"
    if "int (length pages) < 2147483648"
    using that lru_run_count_bound [of "lru_new c" pages]
    by (simp add: lru_get_page_fault_count_def lru_new_def)
  from f1 f2 f3 f4 f5 l1 l2 l3 l4 l5 show ?thesis by blast
qed

theorem fault_count_step_witness:
  "fifo_get_page_fault_count
     \<lparr>fifo_pageQueue = [1, 2, 3], fifo_capacity = 3, fifo_page_fault_count = 3\<rparr> < 2147483647 \<and>
   fifo_get_page_fault_count
     (snd (fifo_load_page
        \<lparr>fifo_pageQueue = [1, 2, 3], fifo_capacity = 3, fifo_page_fault_count = 3\<rparr> 4)) = 4 \<and>
   fifo_get_page_fault_count
     \<lparr>fifo_pageQueue = [1, 2, 3], fifo_capacity = 3, fifo_page_fault_count = 3\<rparr>
     + int (length [4, 1 :: int]) < 2147483648 \<and>
   fifo_get_page_fault_count
     \<lparr>fifo_pageQueue = [1, 2, 3], fifo_capacity = 3, fifo_page_fault_count = 3\<rparr>
     \<le> fifo_get_page_fault_count
         (fifo_run \<lparr>fifo_pageQueue = [1, 2, 3], fifo_capacity = 3, fifo_page_fault_count = 3\<rparr>
            [4, 1]) \<and>
   lru_get_page_fault_count
     \<lparr>lru_pageMap = [(2, 1), (1, 2)], lru_capacity = 3, lru_page_fault_count = 2\<rparr> < 2147483647 \<and>
   lru_get_page_fault_count
     (snd (lru_load_page
        \<lparr>lru_pageMap = [(2, 1), (1, 2)], lru_capacity = 3, lru_page_fault_count = 2\<rparr> 4)) = 3 \<and>
   lru_get_page_fault_count
     \<lparr>lru_pageMap = [(2, 1), (1, 2)], lru_capacity = 3, lru_page_fault_count = 2\<rparr>
     + int (length [4, 1 :: int]) < 2147483648 \<and>
   lru_get_page_fault_count
     \<lparr>lru_pageMap = [(2, 1), (1, 2)], lru_capacity = 3, lru_page_fault_count = 2\<rparr>
     \<le> lru_get_page_fault_count
         (lru_run \<lparr>lru_pageMap = [(2, 1), (1, 2)], lru_capacity = 3, lru_page_fault_count = 2\<rparr>
            [4, 1]) \<and>
   int (length [4, 1 :: int]) < 2147483648 \<and>
   (0::int) \<le> fifo_get_page_fault_count (fifo_run (fifo_new 3) [4, 1]) \<and>
   (0::int) \<le> lru_get_page_fault_count (lru_run (lru_new 3) [4, 1])"
  using fault_count_step
    [of "\<lparr>fifo_pageQueue = [1, 2, 3], fifo_capacity = 3, fifo_page_fault_count = 3\<rparr>" 4
        "[4, 1]" 3
        "\<lparr>lru_pageMap = [(2, 1), (1, 2)], lru_capacity = 3, lru_page_fault_count = 2\<rparr>"]
  by (simp add: fifo_eval lru_eval Let_def)

text \<open>
  C3. In every state of a \<^verbatim>\<open>fifo_table\<close> in which the page is resident,
  \<^verbatim>\<open>load_page\<close> returns \<open>(false, -1)\<close>, no fault and no page replaced, and the
  object is unchanged: the same queue in the same order, the same fault count.
\<close>

theorem fifo_hit_frame:
  "page \<in> set (fifo_get_page_list s) \<Longrightarrow> fifo_load_page s page = ((False, -1), s)"
  by (simp add: fifo_load_page_def fifo_get_page_list_def)

theorem fifo_hit_frame_witness:
  "(2::int) \<in> set (fifo_get_page_list
      \<lparr>fifo_pageQueue = [1, 2, 3], fifo_capacity = 3, fifo_page_fault_count = 3\<rparr>) \<and>
   fifo_load_page \<lparr>fifo_pageQueue = [1, 2, 3], fifo_capacity = 3, fifo_page_fault_count = 3\<rparr> 2 =
     ((False, -1), \<lparr>fifo_pageQueue = [1, 2, 3], fifo_capacity = 3, fifo_page_fault_count = 3\<rparr>)"
proof -
  have h: "(2::int) \<in> set (fifo_get_page_list
      \<lparr>fifo_pageQueue = [1, 2, 3], fifo_capacity = 3, fifo_page_fault_count = 3\<rparr>)"
    by (simp add: fifo_get_page_list_def)
  from h fifo_hit_frame [OF h] show ?thesis by simp
qed

text \<open>
  C4, as stated, fails at the top of the range of the fault counter: on a miss in a
  state whose counter is \<open>2147483647\<close>, reached by that many faulting calls on a table
  of capacity 0, the counter becomes \<open>-2147483648\<close>. The rest of the claim holds
  there: the call faults and replaces the page it has just appended.
\<close>

theorem fifo_miss_wrap_counterexample:
  "fifo_run (fifo_new 0) (replicate 2147483647 7) =
     \<lparr>fifo_pageQueue = [], fifo_capacity = 0, fifo_page_fault_count = 2147483647\<rparr> \<and>
   fifo_load_page
     \<lparr>fifo_pageQueue = [], fifo_capacity = 0, fifo_page_fault_count = 2147483647\<rparr> 7 =
     ((True, 7),
      \<lparr>fifo_pageQueue = [], fifo_capacity = 0, fifo_page_fault_count = - 2147483648\<rparr>) \<and>
   sint (- 2147483648 :: c_int) = - 2147483648"
  using fifo_run_zero_replicate [of 0 2147483647 7]
  by (simp add: fifo_new_def fifo_load_page_def Let_def)

text \<open>
  C4, amended. In every state of a \<^verbatim>\<open>fifo_table\<close> in which the page is not
  resident, \<^verbatim>\<open>load_page\<close> reports a fault, increments the 32-bit fault counter and
  appends the page at the back of the queue; exactly when the queue is then longer than
  the capacity, the front entry is removed and returned as the replaced page, and
  otherwise \<open>-1\<close> is returned. The value of the counter read afterwards is one more
  than before, except that after \<open>2147483647\<close> it is \<open>-2147483648\<close>. Loading
  1, 2, 3, 4 into a new table of capacity 3 replaces nothing in the first three calls and
  page 1 in the fourth, and leaves the queue \<open>[2, 3, 4]\<close> and the count 4.
\<close>

theorem fifo_miss_effect:
  "(page \<notin> set (fifo_get_page_list s) \<longrightarrow>
      fifo_load_page s page =
        (if fifo_capacity s < length (fifo_pageQueue s @ [page])
         then ((True, hd (fifo_pageQueue s @ [page])),
               s\<lparr>fifo_pageQueue := tl (fifo_pageQueue s @ [page]),
                 fifo_page_fault_count := fifo_page_fault_count s + 1\<rparr>)
         else ((True, -1),
               s\<lparr>fifo_pageQueue := fifo_pageQueue s @ [page],
                 fifo_page_fault_count := fifo_page_fault_count s + 1\<rparr>)) \<and>
      fifo_get_page_fault_count (snd (fifo_load_page s page)) =
        (if fifo_get_page_fault_count s = 2147483647 then - 2147483648
         else fifo_get_page_fault_count s + 1)) \<and>
   fifo_results (fifo_new 3) [1, 2, 3, 4] = [(True, -1), (True, -1), (True, -1), (True, 1)] \<and>
   fifo_get_page_list (fifo_run (fifo_new 3) [1, 2, 3, 4]) = [2, 3, 4] \<and>
   fifo_get_page_fault_count (fifo_run (fifo_new 3) [1, 2, 3, 4]) = 4"
proof -
  have w: "sint (x + 1) = (if sint x = 2147483647 then - 2147483648 else sint x + 1)"
    for x :: c_int
  proof (cases "sint x = 2147483647")
    case True
    then have "sint x = sint (2147483647 :: c_int)" by simp
    then have "x = 2147483647" by (rule signed_word_eqI)
    then show ?thesis by simp
  next
    case False
    moreover have "sint x < 2147483648" using sint_less [of x] by simp
    ultimately have "sint x < 2147483647" by simp
    with False show ?thesis by (simp add: sint_succ)
  qed
  show ?thesis
    by (simp add: fifo_load_page_def fifo_get_page_list_def fifo_new_def
          fifo_get_page_fault_count_def Let_def w)
qed

theorem fifo_miss_effect_witness:
  "(4::int) \<notin> set (fifo_get_page_list
      \<lparr>fifo_pageQueue = [1, 2, 3], fifo_capacity = 3, fifo_page_fault_count = 3\<rparr>) \<and>
   fifo_load_page \<lparr>fifo_pageQueue = [1, 2, 3], fifo_capacity = 3, fifo_page_fault_count = 3\<rparr> 4 =
     ((True, 1), \<lparr>fifo_pageQueue = [2, 3, 4], fifo_capacity = 3, fifo_page_fault_count = 4\<rparr>) \<and>
   fifo_get_page_fault_count
     (snd (fifo_load_page
        \<lparr>fifo_pageQueue = [1, 2, 3], fifo_capacity = 3, fifo_page_fault_count = 3\<rparr> 4)) = 4"
  using fifo_miss_effect
    [of 4 "\<lparr>fifo_pageQueue = [1, 2, 3], fifo_capacity = 3, fifo_page_fault_count = 3\<rparr>"]
  by (simp add: fifo_get_page_list_def fifo_get_page_fault_count_def)

text \<open>
  C5. Loading 1, 2, 3, 1, 4 into a new \<^verbatim>\<open>lru_table\<close> of capacity 3: the first three
  calls fault and replace nothing, the fourth is a hit, and the fifth faults and
  replaces page 2, not page 1. Before the fourth call page 1 has the largest counter of
  the table; the fourth call resets it to the smallest, which leaves page 2 with the
  largest. Pages 1, 3 and 4 are resident at the end.
\<close>

theorem lru_recency_example:
  "lru_results (lru_new 3) [1, 2, 3, 1, 4] =
     [(True, -1), (True, -1), (True, -1), (False, -1), (True, 2)] \<and>
   snd (lru_results (lru_new 3) [1, 2, 3, 1, 4] ! 4) \<noteq> 1 \<and>
   map (map_of (lru_pageMap (lru_run (lru_new 3) [1, 2, 3]))) [1, 2, 3] =
     [Some 3, Some 2, Some 1] \<and>
   map (map_of (lru_pageMap (lru_run (lru_new 3) [1, 2, 3, 1]))) [1, 2, 3] =
     [Some 1, Some 3, Some 2] \<and>
   set (lru_get_page_list (lru_run (lru_new 3) [1, 2, 3, 1, 4])) = {1, 3, 4}"
  by (simp add: lru_eval Let_def insert_commute)

text \<open>
  C6, as stated, fails: \<^verbatim>\<open>load_page\<close> sets the counter of the page to 0 and then
  increments every counter of the table, this one included, so after the call the page
  has counter 1 and no resident page has counter 0; and a hit ages the other pages
  without filling the gap, so the counters need not be consecutive. After loading 1, 2, 2
  into a new table of capacity 3 the counters are 1 and 3. Moreover the counters are
  \<^verbatim>\<open>size_t\<close>: after \<open>2^64\<close> calls, page 1 once and then page 2, the counter of
  page 1 has wrapped to 0 and is below that of the page just loaded.
\<close>

theorem lru_counter_zero_counterexample:
  "lru_pageMap (snd (lru_load_page (lru_new 3) 1)) = [(1, 1)] \<and>
   0 \<notin> set (map snd (lru_pageMap (snd (lru_load_page (lru_new 3) 1)))) \<and>
   map (map_of (lru_pageMap (lru_run (lru_new 3) [1, 2, 2]))) [1, 2] = [Some 3, Some 1] \<and>
   sort (map snd (lru_pageMap (lru_run (lru_new 3) [1, 2, 2]))) = [1, 3] \<and>
   map (map_of (lru_pageMap (lru_run (lru_new 2) (1 # replicate 18446744073709551615 2)))) [1, 2]
     = [Some 0, Some 1]"
proof -
  have "(18446744073709551615 :: nat) = Suc 18446744073709551614" by simp
  then have "lru_run (lru_new 2) (1 # replicate 18446744073709551615 2) =
      \<lparr>lru_pageMap = [(2, 1), (1, 2 + of_nat 18446744073709551614)], lru_capacity = 2,
        lru_page_fault_count = 2\<rparr>"
    by (simp only: lru_run_two_pages)
  then have "map (map_of (lru_pageMap (lru_run (lru_new 2)
      (1 # replicate 18446744073709551615 2)))) [1, 2] = [Some 0, Some 1]"
    by simp
  moreover have "lru_pageMap (snd (lru_load_page (lru_new 3) 1)) = [(1, 1)]"
    by (simp add: lru_eval Let_def)
  moreover have "map (map_of (lru_pageMap (lru_run (lru_new 3) [1, 2, 2]))) [1, 2]
      = [Some 3, Some 1]"
    by (simp add: lru_eval Let_def)
  moreover have "sort (map snd (lru_pageMap (lru_run (lru_new 3) [1, 2, 2]))) = [1, 3]"
    by (simp add: lru_eval Let_def)
  ultimately show ?thesis by simp
qed

text \<open>
  C6, amended. After each of the first \<open>2^64 - 1\<close> calls on a table reached from a
  new one: when the capacity is at least 1, exactly one resident page has counter 1,
  the page just loaded, and every other resident page has a larger counter; and the
  counters of the resident pages are pairwise distinct. After every call, when the table
  after the increment holds more entries than the capacity, the page removed and
  returned has the greatest counter of that table, and otherwise nothing is removed and
  \<open>-1\<close> is returned.
\<close>

theorem lru_recency_counters:
  "(let s = lru_run (lru_new c) pages;
        m = lru_touch (lru_pageMap s) page;
        r = lru_load_page s page
    in (length pages < 2 ^ 64 - 1 \<longrightarrow>
          (0 < c \<longrightarrow>
             filter (\<lambda>kvp. snd kvp = 1) (lru_pageMap (snd r)) = [(page, 1)] \<and>
             (\<forall>kvp \<in> set (lru_pageMap (snd r)). fst kvp \<noteq> page \<longrightarrow> 1 < snd kvp)) \<and>
          distinct (map snd (lru_pageMap (snd r)))) \<and>
       (c < length m \<longrightarrow>
          (\<exists>kvp \<in> set m. (\<forall>x \<in> set m. snd x \<le> snd kvp) \<and>
             snd (fst r) = fst kvp \<and> lru_pageMap (snd r) = remove1 kvp m)) \<and>
       (length m \<le> c \<longrightarrow> snd (fst r) = -1 \<and> lru_pageMap (snd r) = m))"
proof -
  define s where "s = lru_run (lru_new c) pages"
  define m where "m = lru_touch (lru_pageMap s) page"
  define r where "r = lru_load_page s page"
  have inv: "lru_inv s" by (simp add: s_def lru_run_inv lru_new_inv)
  have cap: "lru_capacity s = c" by (simp add: s_def lru_new_def)
  have a: "(0 < c \<longrightarrow>
             filter (\<lambda>kvp. snd kvp = 1) (lru_pageMap (snd r)) = [(page, 1)] \<and>
             (\<forall>kvp \<in> set (lru_pageMap (snd r)). fst kvp \<noteq> page \<longrightarrow> 1 < snd kvp)) \<and>
          distinct (map snd (lru_pageMap (snd r)))"
    if n: "length pages < 2 ^ 64 - 1"
  proof
    from n have "length pages < 2 ^ 64" by simp
    then have ci: "lru_counters_inv (length pages) (lru_pageMap s)"
      unfolding s_def by (rule lru_reach_counters_inv)
    have ci': "lru_counters_inv (length pages + 1) (lru_pageMap (snd r))"
      unfolding r_def using inv ci n by (rule lru_load_counters_inv)
    then show d: "distinct (map snd (lru_pageMap (snd r)))"
      by (simp add: lru_counters_inv_def)
    show "0 < c \<longrightarrow>
             filter (\<lambda>kvp. snd kvp = 1) (lru_pageMap (snd r)) = [(page, 1)] \<and>
             (\<forall>kvp \<in> set (lru_pageMap (snd r)). fst kvp \<noteq> page \<longrightarrow> 1 < snd kvp)"
    proof (intro impI conjI)
      assume "0 < c"
      then have p: "(page, 1) \<in> set (lru_pageMap (snd r))"
        unfolding r_def using inv ci n cap by (intro lru_load_no_self_eviction) simp_all
      with d show f: "filter (\<lambda>kvp. snd kvp = 1) (lru_pageMap (snd r)) = [(page, 1)]"
        by (rule filter_counter)
      show "\<forall>kvp \<in> set (lru_pageMap (snd r)). fst kvp \<noteq> page \<longrightarrow> 1 < snd kvp"
      proof (intro ballI impI)
        fix kvp assume k: "kvp \<in> set (lru_pageMap (snd r))" "fst kvp \<noteq> page"
        have "0 < unat (snd kvp)"
          using ci' k(1) by (auto simp: lru_counters_inv_def list_all_iff)
        moreover have "snd kvp \<noteq> 1"
        proof
          assume "snd kvp = 1"
          with k(1) have "kvp \<in> set (filter (\<lambda>kvp. snd kvp = 1) (lru_pageMap (snd r)))"
            by simp
          with f k(2) show False by simp
        qed
        then have "unat (snd kvp) \<noteq> 1" by (simp add: word_unat_eq_iff)
        ultimately have "1 < unat (snd kvp)" by simp
        then show "1 < snd kvp" by (simp add: word_less_nat_alt)
      qed
    qed
  qed
  have b: "\<exists>kvp \<in> set m. (\<forall>x \<in> set m. snd x \<le> snd kvp) \<and>
             snd (fst r) = fst kvp \<and> lru_pageMap (snd r) = remove1 kvp m" if "c < length m"
  proof -
    from that obtain kvp where k: "max_element m = Some kvp"
      and e: "snd (fst r) = fst kvp" "lru_pageMap (snd r) = remove1 kvp m"
      using lru_load_evicts [of s page] by (auto simp: m_def r_def cap)
    from k have "kvp \<in> set m" by (rule max_element_in)
    moreover from k have "\<forall>x \<in> set m. snd x \<le> snd kvp" by (auto intro: max_element_ge)
    ultimately show ?thesis using e by blast
  qed
  have e: "snd (fst r) = -1 \<and> lru_pageMap (snd r) = m" if "length m \<le> c"
    using that by (simp add: r_def m_def cap lru_load_fits)
  from a b e show ?thesis
    unfolding Let_def s_def [symmetric] m_def [symmetric] r_def [symmetric] by blast
qed

theorem lru_recency_counters_witness:
  "length [1, 2, 3, 3 :: int] < 2 ^ 64 - 1 \<and>
   (0::nat) < 3 \<and> 3 < length (lru_touch (lru_pageMap (lru_run (lru_new 3) [1, 2, 3, 3])) 4) \<and>
   filter (\<lambda>kvp. snd kvp = 1) (lru_pageMap (snd (lru_load_page (lru_run (lru_new 3) [1, 2, 3, 3]) 4)))
     = [(4, 1)] \<and>
   lru_load_page (lru_run (lru_new 3) [1, 2, 3, 3]) 4 =
     ((True, 1), \<lparr>lru_pageMap = [(4, 1), (3, 2), (2, 4)], lru_capacity = 3, lru_page_fault_count = 4\<rparr>) \<and>
   length (lru_touch (lru_pageMap (lru_run (lru_new 3) [1])) 2) \<le> 3 \<and>
   lru_load_page (lru_run (lru_new 3) [1]) 2 =
     ((True, -1), \<lparr>lru_pageMap = [(2, 1), (1, 2)], lru_capacity = 3, lru_page_fault_count = 2\<rparr>)"
  using lru_recency_counters [of 3 "[1, 2, 3, 3]" 4] lru_recency_counters [of 3 "[1]" 2]
  by (simp add: lru_eval Let_def)

text \<open>
  C7. When the page is resident, two calls \<^verbatim>\<open>load_page(page)\<close> in a row both
  return \<open>(false, -1)\<close>, and after each the fault count and the list of resident pages
  are what they were before the first: in every state of a \<^verbatim>\<open>fifo_table\<close>, and in
  every state of an \<^verbatim>\<open>lru_table\<close> reached from a new table.
\<close>

theorem idempotent_hit:
  "(page \<in> set (fifo_get_page_list s) \<longrightarrow>
      (let r1 = fifo_load_page s page; r2 = fifo_load_page (snd r1) page
       in fst r1 = (False, -1) \<and> fst r2 = (False, -1) \<and>
          fifo_get_page_fault_count (snd r1) = fifo_get_page_fault_count s \<and>
          fifo_get_page_fault_count (snd r2) = fifo_get_page_fault_count s \<and>
          fifo_get_page_list (snd r1) = fifo_get_page_list s \<and>
          fifo_get_page_list (snd r2) = fifo_get_page_list s)) \<and>
   (page \<in> set (lru_get_page_list (lru_run (lru_new c) pages)) \<longrightarrow>
      (let t = lru_run (lru_new c) pages;
           r1 = lru_load_page t page; r2 = lru_load_page (snd r1) page
       in fst r1 = (False, -1) \<and> fst r2 = (False, -1) \<and>
          lru_get_page_fault_count (snd r1) = lru_get_page_fault_count t \<and>
          lru_get_page_fault_count (snd r2) = lru_get_page_fault_count t \<and>
          lru_get_page_list (snd r1) = lru_get_page_list t \<and>
          lru_get_page_list (snd r2) = lru_get_page_list t))"
proof (intro conjI impI)
  assume "page \<in> set (fifo_get_page_list s)"
  then have "fifo_load_page s page = ((False, -1), s)"
    by (simp add: fifo_load_page_def fifo_get_page_list_def)
  then show "let r1 = fifo_load_page s page; r2 = fifo_load_page (snd r1) page
       in fst r1 = (False, -1) \<and> fst r2 = (False, -1) \<and>
          fifo_get_page_fault_count (snd r1) = fifo_get_page_fault_count s \<and>
          fifo_get_page_fault_count (snd r2) = fifo_get_page_fault_count s \<and>
          fifo_get_page_list (snd r1) = fifo_get_page_list s \<and>
          fifo_get_page_list (snd r2) = fifo_get_page_list s"
    by (simp add: Let_def)
next
  define t where "t = lru_run (lru_new c) pages"
  define t1 where "t1 = snd (lru_load_page t page)"
  assume "page \<in> set (lru_get_page_list (lru_run (lru_new c) pages))"
  then have p: "page \<in> set (lru_get_page_list t)" by (simp add: t_def)
  have inv: "lru_inv t" by (simp add: t_def lru_run_inv lru_new_inv)
  have inv1: "lru_inv t1" unfolding t1_def using inv by (rule lru_load_inv)
  have r1: "lru_load_page t page = ((False, -1), t\<lparr>lru_pageMap := lru_touch (lru_pageMap t) page\<rparr>)"
    and l1: "lru_get_page_list t1 = lru_get_page_list t"
    unfolding t1_def using inv p by (rule lru_load_hit)+
  from p l1 have p1: "page \<in> set (lru_get_page_list t1)" by simp
  have r2: "lru_load_page t1 page = ((False, -1), t1\<lparr>lru_pageMap := lru_touch (lru_pageMap t1) page\<rparr>)"
    and l2: "lru_get_page_list (snd (lru_load_page t1 page)) = lru_get_page_list t1"
    using inv1 p1 by (rule lru_load_hit)+
  have c1: "lru_get_page_fault_count t1 = lru_get_page_fault_count t"
    by (simp add: t1_def r1 lru_get_page_fault_count_def)
  have c2: "lru_get_page_fault_count (snd (lru_load_page t1 page)) = lru_get_page_fault_count t1"
    by (simp add: r2 lru_get_page_fault_count_def)
  have "fst (lru_load_page t page) = (False, -1)" "fst (lru_load_page t1 page) = (False, -1)"
    by (simp_all add: r1 r2)
  with c1 c2 l1 l2
  show "let t = lru_run (lru_new c) pages;
           r1 = lru_load_page t page; r2 = lru_load_page (snd r1) page
       in fst r1 = (False, -1) \<and> fst r2 = (False, -1) \<and>
          lru_get_page_fault_count (snd r1) = lru_get_page_fault_count t \<and>
          lru_get_page_fault_count (snd r2) = lru_get_page_fault_count t \<and>
          lru_get_page_list (snd r1) = lru_get_page_list t \<and>
          lru_get_page_list (snd r2) = lru_get_page_list t"
    unfolding Let_def t_def [symmetric] t1_def [symmetric] by simp
qed

theorem idempotent_hit_witness:
  "(2::int) \<in> set (fifo_get_page_list (fifo_run (fifo_new 3) [1, 2, 3])) \<and>
   (2::int) \<in> set (lru_get_page_list (lru_run (lru_new 3) [1, 2, 3])) \<and>
   fst (fifo_load_page (snd (fifo_load_page (fifo_run (fifo_new 3) [1, 2, 3]) 2)) 2) = (False, -1) \<and>
   fst (lru_load_page (snd (lru_load_page (lru_run (lru_new 3) [1, 2, 3]) 2)) 2) = (False, -1) \<and>
   lru_get_page_fault_count (snd (lru_load_page (snd (lru_load_page (lru_run (lru_new 3) [1, 2, 3]) 2)) 2)) = 3 \<and>
   fifo_get_page_fault_count (snd (fifo_load_page (snd (fifo_load_page (fifo_run (fifo_new 3) [1, 2, 3]) 2)) 2)) = 3"
  using idempotent_hit [of 2 "fifo_run (fifo_new 3) [1, 2, 3]" 3 "[1, 2, 3]"]
  by (simp add: lru_eval fifo_eval Let_def)

text \<open>
  C8. On a table constructed with capacity 0, after any sequence of calls,
  \<^verbatim>\<open>load_page(page)\<close> returns \<open>(true, page)\<close>, a fault that replaces the page just
  inserted, and leaves no resident page. This holds for both tables.
\<close>

theorem zero_capacity_self_eviction:
  "fst (fifo_load_page (fifo_run (fifo_new 0) pages) page) = (True, page) \<and>
   fifo_get_page_list (snd (fifo_load_page (fifo_run (fifo_new 0) pages) page)) = [] \<and>
   fst (lru_load_page (lru_run (lru_new 0) pages) page) = (True, page) \<and>
   lru_get_page_list (snd (lru_load_page (lru_run (lru_new 0) pages) page)) = []"
proof -
  have f: "fifo_pageQueue (fifo_run (fifo_new 0) pages) = []"
    by (rule fifo_zero)
  have fc: "fifo_capacity (fifo_new 0) = 0"
    by (simp add: fifo_new_def)
  have l: "lru_pageMap (lru_run (lru_new 0) pages) = []"
    by (rule lru_zero)
  have lc: "lru_capacity (lru_new 0) = 0"
    by (simp add: lru_new_def)
  have "fifo_load_page (fifo_run (fifo_new 0) pages) page =
          ((True, page), (fifo_run (fifo_new 0) pages)
             \<lparr>fifo_pageQueue := [],
               fifo_page_fault_count := fifo_page_fault_count (fifo_run (fifo_new 0) pages) + 1\<rparr>)"
    by (simp add: fifo_load_page_def f fc Let_def)
  moreover have "lru_load_page (lru_run (lru_new 0) pages) page =
          ((True, page), (lru_run (lru_new 0) pages)
             \<lparr>lru_pageMap := [],
               lru_page_fault_count := lru_page_fault_count (lru_run (lru_new 0) pages) + 1\<rparr>)"
    by (simp add: lru_load_page_def lru_touch_def map_assign_def map_insert_def
          increment_all_def l lc Let_def)
  ultimately show ?thesis
    by (simp add: fifo_get_page_list_def lru_get_page_list_def)
qed

text \<open>
  C9. In every state of either table, for every capacity and every page, the call
  \<^verbatim>\<open>load_page\<close> returns: run iterator by iterator, each of its searches and its
  \<^verbatim>\<open>for\<close> statement reaches \<^verbatim>\<open>end()\<close>, and the result is the one that the
  definition by list functions, a total function, computes.
\<close>

theorem load_page_terminates:
  "fifo_load_page_iter s page = Some (fifo_load_page s page) \<and>
   lru_load_page_iter t page = Some (lru_load_page t page)"
  by (simp add: fifo_iter_eq lru_iter_eq)

text \<open>
  C10, as stated, fails once a counter has wrapped. After page 1 is loaded and then
  page 2 \<open>2^64\<close> times into a new table of capacity 2, the counter of page 1 has grown
  to \<open>1 + 2^64\<close>, which is 1 in a \<^verbatim>\<open>size_t\<close>, and both resident pages have
  counter 1. Loading page 3 then replaces whichever of the two the search meets first:
  page 2 if the container lists it before page 1, page 1 otherwise.
\<close>

theorem lru_counters_wrap_counterexample:
  "lru_pageMap (lru_run (lru_new 2) (1 # replicate 18446744073709551616 2)) = [(2, 1), (1, 1)] \<and>
   \<not> distinct (map snd (lru_pageMap (lru_run (lru_new 2) (1 # replicate 18446744073709551616 2)))) \<and>
   fst (lru_load_page (lru_run (lru_new 2) (1 # replicate 18446744073709551616 2)) 3) = (True, 2) \<and>
   fst (lru_load_page
     ((lru_run (lru_new 2) (1 # replicate 18446744073709551616 2))\<lparr>lru_pageMap := [(1, 1), (2, 1)]\<rparr>)
     3) = (True, 1)"
proof -
  have "(18446744073709551616 :: nat) = Suc 18446744073709551615" by simp
  then have "lru_run (lru_new 2) (1 # replicate 18446744073709551616 2) =
      \<lparr>lru_pageMap = [(2, 1), (1, 2 + of_nat 18446744073709551615)], lru_capacity = 2,
        lru_page_fault_count = 2\<rparr>"
    by (simp only: lru_run_two_pages)
  then have "lru_run (lru_new 2) (1 # replicate 18446744073709551616 2) =
      \<lparr>lru_pageMap = [(2, 1), (1, 1)], lru_capacity = 2, lru_page_fault_count = 2\<rparr>"
    by simp
  then show ?thesis
    by (simp add: lru_load_page_def lru_touch_def map_assign_def map_insert_def
          increment_all_def Let_def)
qed

text \<open>
  C10, amended. After any sequence of fewer than \<open>2^64\<close> calls on a new
  \<^verbatim>\<open>lru_table\<close> (the calls \<open>pages\<close> and then the call for \<open>page\<close>) the counters
  of the resident pages are pairwise distinct, before and after the last call, and so
  are those of the table in which that call searches for its greatest counter. Hence
  at most one entry has the greatest counter; the search returns the same entry whether
  it keeps the first or the last greatest element; and if the container held the same
  entries in any other order \<open>m'\<close>, the search would find the same entry, and the
  call would return the same result and leave the same entries.
\<close>

theorem lru_counters_distinct:
  "(let s = lru_run (lru_new c) pages; m = lru_touch (lru_pageMap s) page
    in length pages < 2 ^ 64 - 1 \<longrightarrow>
       distinct (map snd (lru_pageMap s)) \<and> distinct (map snd m) \<and>
       distinct (map snd (lru_pageMap (snd (lru_load_page s page)))) \<and>
       (\<forall>a \<in> set m. \<forall>b \<in> set m.
          (\<forall>x \<in> set m. snd x \<le> snd a) \<and> (\<forall>x \<in> set m. snd x \<le> snd b) \<longrightarrow> a = b) \<and>
       max_element_last m = max_element m \<and>
       (mset m' = mset (lru_pageMap s) \<longrightarrow>
          max_element (lru_touch m' page) = max_element m \<and>
          fst (lru_load_page (s\<lparr>lru_pageMap := m'\<rparr>) page) = fst (lru_load_page s page) \<and>
          mset (lru_pageMap (snd (lru_load_page (s\<lparr>lru_pageMap := m'\<rparr>) page))) =
            mset (lru_pageMap (snd (lru_load_page s page)))))"
proof -
  define s where "s = lru_run (lru_new c) pages"
  define m where "m = lru_touch (lru_pageMap s) page"
  have inv: "lru_inv s" by (simp add: s_def lru_run_inv lru_new_inv)
  have g: "distinct (map snd (lru_pageMap s)) \<and> distinct (map snd m) \<and>
       distinct (map snd (lru_pageMap (snd (lru_load_page s page)))) \<and>
       (\<forall>a \<in> set m. \<forall>b \<in> set m.
          (\<forall>x \<in> set m. snd x \<le> snd a) \<and> (\<forall>x \<in> set m. snd x \<le> snd b) \<longrightarrow> a = b) \<and>
       max_element_last m = max_element m \<and>
       (mset m' = mset (lru_pageMap s) \<longrightarrow>
          max_element (lru_touch m' page) = max_element m \<and>
          fst (lru_load_page (s\<lparr>lru_pageMap := m'\<rparr>) page) = fst (lru_load_page s page) \<and>
          mset (lru_pageMap (snd (lru_load_page (s\<lparr>lru_pageMap := m'\<rparr>) page))) =
            mset (lru_pageMap (snd (lru_load_page s page))))"
    if n: "length pages < 2 ^ 64 - 1"
  proof -
    from n have "length pages < 2 ^ 64" by simp
    then have ci: "lru_counters_inv (length pages) (lru_pageMap s)"
      unfolding s_def by (rule lru_reach_counters_inv)
    then have d: "distinct (map snd (lru_pageMap s))" by (simp add: lru_counters_inv_def)
    have "lru_counters_inv (length pages + 1) m"
      unfolding m_def using inv ci n by (intro lru_touch_counters_inv) (simp_all add: lru_inv_def)
    then have dm: "distinct (map snd m)" by (simp add: lru_counters_inv_def)
    have "lru_counters_inv (length pages + 1) (lru_pageMap (snd (lru_load_page s page)))"
      using inv ci n by (rule lru_load_counters_inv)
    then have da: "distinct (map snd (lru_pageMap (snd (lru_load_page s page))))"
      by (simp add: lru_counters_inv_def)
    have u: "\<forall>a \<in> set m. \<forall>b \<in> set m.
          (\<forall>x \<in> set m. snd x \<le> snd a) \<and> (\<forall>x \<in> set m. snd x \<le> snd b) \<longrightarrow> a = b"
    proof (intro ballI impI)
      fix a b
      assume a: "a \<in> set m" and b: "b \<in> set m"
        and g: "(\<forall>x \<in> set m. snd x \<le> snd a) \<and> (\<forall>x \<in> set m. snd x \<le> snd b)"
      from g have ga: "\<forall>x \<in> set m. snd x \<le> snd a" and gb: "\<forall>x \<in> set m. snd x \<le> snd b"
        by simp_all
      have "max_element m = Some a" using dm a ga by (rule max_element_unique)
      moreover have "max_element m = Some b" using dm b gb by (rule max_element_unique)
      ultimately show "a = b" by simp
    qed
    have l: "max_element_last m = max_element m" using dm by (rule max_element_last_eq)
    have p: "max_element (lru_touch m' page) = max_element m \<and>
          fst (lru_load_page (s\<lparr>lru_pageMap := m'\<rparr>) page) = fst (lru_load_page s page) \<and>
          mset (lru_pageMap (snd (lru_load_page (s\<lparr>lru_pageMap := m'\<rparr>) page))) =
            mset (lru_pageMap (snd (lru_load_page s page)))"
      if e: "mset m' = mset (lru_pageMap s)"
    proof -
      have "mset (lru_touch m' page) = mset m" unfolding m_def using e by (rule lru_touch_mset)
      with dm have "max_element (lru_touch m' page) = max_element m" by (rule max_element_perm)
      moreover have "distinct (map snd (lru_touch (lru_pageMap s) page))"
        using dm by (simp add: m_def)
      note lru_load_perm [OF this e]
      ultimately show ?thesis by simp
    qed
    from d dm da u l p show ?thesis by blast
  qed
  then show ?thesis
    unfolding Let_def s_def [symmetric] m_def [symmetric] by blast
qed

theorem lru_counters_distinct_witness:
  "length [1, 2, 3, 1 :: int] < 2 ^ 64 - 1 \<and>
   mset [(1::int, 1::size_t), (3, 2), (2, 3)] = mset (lru_pageMap (lru_run (lru_new 3) [1, 2, 3, 1])) \<and>
   fst (lru_load_page \<lparr>lru_pageMap = [(1, 1), (3, 2), (2, 3)], lru_capacity = 3,
                        lru_page_fault_count = 3\<rparr> 4) =
     fst (lru_load_page (lru_run (lru_new 3) [1, 2, 3, 1]) 4) \<and>
   fst (lru_load_page (lru_run (lru_new 3) [1, 2, 3, 1]) 4) = (True, 2) \<and>
   distinct (map snd (lru_touch (lru_pageMap (lru_run (lru_new 3) [1, 2, 3, 1])) 4))"
  using lru_counters_distinct [of 3 "[1, 2, 3, 1]" 4 "[(1, 1), (3, 2), (2, 3)]"]
  by (simp add: lru_eval Let_def)

end
